theory Spec2Isabelle
  imports Main
begin

section \<open>Failures and machine integers\<close>

text \<open>
  The program is C++ and computes with \<^verbatim>\<open>int\<close>. Coordinates and sizes are modelled as
  \<^typ>\<open>int\<close>; the places where the C++ would leave the range of \<^verbatim>\<open>int\<close> are written
  out as failures. The model is the build with assertions enabled: a failed
  \<^verbatim>\<open>assert\<close> aborts the program, which is the value \<open>Inl (AssertionFailed a)\<close>,
  where \<open>a\<close> tells which of the three assertions of the source it was.
\<close>

definition INT_MAX :: int where
  "INT_MAX = 2147483647"

datatype assertion =
    Bounds       \<comment> \<open>\<^verbatim>\<open>assert(0 <= x && x < width && 0 <= y && y < height)\<close>\<close>
  | EqualSize    \<comment> \<open>\<^verbatim>\<open>assert(in.width == out.width && in.height == out.height)\<close>\<close>
  | EvenHeight   \<comment> \<open>\<^verbatim>\<open>assert(buffer.front().height % 2 == 0)\<close>\<close>

datatype error =
    AssertionFailed assertion
  | OutOfRange       \<comment> \<open>an access outside the allocated array\<close>
  | SignedOverflow   \<comment> \<open>an \<^verbatim>\<open>int\<close> computation leaving the range of \<^verbatim>\<open>int\<close>\<close>
  | BadArrayLength   \<comment> \<open>\<^verbatim>\<open>new bool[n]\<close> with a negative \<open>n\<close>\<close>
  | DivisionByZero

section \<open>The grid\<close>

text \<open>
  \<^verbatim>\<open>class grid\<close>: two constant dimensions and a heap array of \<^verbatim>\<open>width * height\<close>
  booleans, stored row by row.
\<close>

record grid =
  width :: int
  height :: int
  data :: "bool list"

text \<open>
  The constructor allocates \<^verbatim>\<open>new bool[width * height]\<close> and does not initialise it.
  What the fresh memory holds is the parameter \<open>mem\<close>.
\<close>

definition make_grid :: "int \<Rightarrow> int \<Rightarrow> (nat \<Rightarrow> bool) \<Rightarrow> error + grid" where
  "make_grid w h mem =
     (if w * h < - INT_MAX - 1 \<or> INT_MAX < w * h then Inl SignedOverflow
      else if w * h < 0 then Inl BadArrayLength
      else Inr \<lparr>width = w, height = h, data = map mem [0..<nat (w * h)]\<rparr>)"

definition in_bounds :: "grid \<Rightarrow> int \<Rightarrow> int \<Rightarrow> bool" where
  "in_bounds g x y = (0 \<le> x \<and> x < width g \<and> 0 \<le> y \<and> y < height g)"

definition offset :: "grid \<Rightarrow> int \<Rightarrow> int \<Rightarrow> int" where
  "offset g x y = x + y * width g"

text \<open>\<^verbatim>\<open>operator()(int x, int y) const\<close>: the checked read of a cell.\<close>

definition get_cell :: "grid \<Rightarrow> int \<Rightarrow> int \<Rightarrow> error + bool" where
  "get_cell g x y =
     (if \<not> in_bounds g x y then Inl (AssertionFailed Bounds)
      else if 0 \<le> offset g x y \<and> nat (offset g x y) < length (data g)
      then Inr (data g ! nat (offset g x y))
      else Inl OutOfRange)"

text \<open>\<^verbatim>\<open>operator()(int x, int y)\<close> used as the target of an assignment: the checked write.\<close>

definition set_cell :: "grid \<Rightarrow> int \<Rightarrow> int \<Rightarrow> bool \<Rightarrow> error + grid" where
  "set_cell g x y v =
     (if \<not> in_bounds g x y then Inl (AssertionFailed Bounds)
      else if 0 \<le> offset g x y \<and> nat (offset g x y) < length (data g)
      then Inr (g\<lparr>data := (data g)[nat (offset g x y) := v]\<rparr>)
      else Inl OutOfRange)"

text \<open>
  A grid as the constructor leaves it and as every later write keeps it: non-negative
  dimensions and an array of \<^verbatim>\<open>width * height\<close> cells, a number within \<^verbatim>\<open>int\<close>.
\<close>

definition grid_ok :: "grid \<Rightarrow> bool" where
  "grid_ok g = (0 \<le> width g \<and> width g \<le> INT_MAX \<and> 0 \<le> height g \<and> height g \<le> INT_MAX \<and>
                width g * height g \<le> INT_MAX \<and> length (data g) = nat (width g * height g))"

section \<open>The generation rule\<close>

text \<open>
  One summand of the neighbour count, \<^verbatim>\<open>(guard && in(x, y) ? 1 : 0)\<close>. The \<^verbatim>\<open>&&\<close>
  does not read the cell when the guard is false.
\<close>

definition counted :: "bool \<Rightarrow> grid \<Rightarrow> int \<Rightarrow> int \<Rightarrow> error + int" where
  "counted guard g x y =
     (if guard
      then (case get_cell g x y of Inl e \<Rightarrow> Inl e | Inr b \<Rightarrow> Inr (if b then 1 else 0))
      else Inr 0)"

fun plus_e :: "error + int \<Rightarrow> error + int \<Rightarrow> error + int" where
  "plus_e (Inl e) _ = Inl e"
| "plus_e (Inr a) (Inl e) = Inl e"
| "plus_e (Inr a) (Inr b) = Inr (a + b)"

text \<open>The sum of the eight summands, in the order of the source.\<close>

definition neighbours :: "grid \<Rightarrow> int \<Rightarrow> int \<Rightarrow> error + int" where
  "neighbours inp x y =
     (let left = x \<noteq> 0;
          up = y \<noteq> 0;
          right = x \<noteq> width inp - 1;
          down = y \<noteq> height inp - 1
      in plus_e (plus_e (plus_e (plus_e (plus_e (plus_e (plus_e
           (counted (left \<and> up) inp (x - 1) (y - 1))
           (counted left inp (x - 1) y))
           (counted (left \<and> down) inp (x - 1) (y + 1)))
           (counted up inp x (y - 1)))
           (counted down inp x (y + 1)))
           (counted (right \<and> up) inp (x + 1) (y - 1)))
           (counted right inp (x + 1) y))
           (counted (right \<and> down) inp (x + 1) (y + 1)))"

text \<open>
  The body of the inner loop: read the cell, count, write the destination cell. Source and
  destination are passed as two values: they are two different objects, as at the one
  call of the program, in \<^verbatim>\<open>tick\<close>, where they are the two grids of the double buffer.
\<close>

definition cell_step :: "grid \<Rightarrow> grid \<Rightarrow> int \<Rightarrow> int \<Rightarrow> error + grid" where
  "cell_step inp out x y =
     (case get_cell inp x y of
        Inl e \<Rightarrow> Inl e
      | Inr currently_alive \<Rightarrow>
          (case neighbours inp x y of
             Inl e \<Rightarrow> Inl e
           | Inr n \<Rightarrow>
               if currently_alive then set_cell out x y (n = 2 \<or> n = 3)
               else set_cell out x y (n = 3)))"

text \<open>
  \<^verbatim>\<open>for (auto x = 0; x != in.width; ++x)\<close>. The loop ends on equality only, so a
  counter that is past the width runs on to \<^verbatim>\<open>INT_MAX\<close>, where \<^verbatim>\<open>++x\<close> is undefined.
\<close>

function col_loop :: "grid \<Rightarrow> grid \<Rightarrow> int \<Rightarrow> int \<Rightarrow> error + grid" where
  "col_loop inp out y x =
     (if x = width inp then Inr out
      else (case cell_step inp out x y of
              Inl e \<Rightarrow> Inl e
            | Inr out' \<Rightarrow>
                if INT_MAX \<le> x then Inl SignedOverflow
                else col_loop inp out' y (x + 1)))"
  by pat_completeness auto
termination
  by (relation "measure (\<lambda>(inp, out, y, x). nat (INT_MAX - x))") auto

text \<open>\<^verbatim>\<open>for (auto y = 0; y != in.height; ++y)\<close>, each round running the inner loop.\<close>

function row_loop :: "grid \<Rightarrow> grid \<Rightarrow> int \<Rightarrow> error + grid" where
  "row_loop inp out y =
     (if y = height inp then Inr out
      else (case col_loop inp out y 0 of
              Inl e \<Rightarrow> Inl e
            | Inr out' \<Rightarrow>
                if INT_MAX \<le> y then Inl SignedOverflow
                else row_loop inp out' (y + 1)))"
  by pat_completeness auto
termination
  by (relation "measure (\<lambda>(inp, out, y). nat (INT_MAX - y))") auto

declare col_loop.simps [simp del] row_loop.simps [simp del]

definition next_generation :: "grid \<Rightarrow> grid \<Rightarrow> error + grid" where
  "next_generation inp out =
     (if \<not> (width inp = width out \<and> height inp = height out)
      then Inl (AssertionFailed EqualSize)
      else row_loop inp out 0)"

section \<open>The double buffer\<close>

text \<open>
  \<^verbatim>\<open>class double_buffered_grid\<close>: two grids \<^verbatim>\<open>a\<close> and \<^verbatim>\<open>b\<close> and the flag
  \<^verbatim>\<open>first\<close> that tells which of them is the front. The constructor builds both with the
  same dimensions; the flag starts as \<^verbatim>\<open>true\<close>.
\<close>

record double_buffered_grid =
  first :: bool
  grid_a :: grid
  grid_b :: grid

definition make_double_buffered_grid ::
    "int \<Rightarrow> int \<Rightarrow> (nat \<Rightarrow> bool) \<Rightarrow> (nat \<Rightarrow> bool) \<Rightarrow> error + double_buffered_grid" where
  "make_double_buffered_grid w h mem_a mem_b =
     (case make_grid w h mem_a of
        Inl e \<Rightarrow> Inl e
      | Inr ga \<Rightarrow>
          (case make_grid w h mem_b of
             Inl e \<Rightarrow> Inl e
           | Inr gb \<Rightarrow> Inr \<lparr>first = True, grid_a = ga, grid_b = gb\<rparr>))"

definition front :: "double_buffered_grid \<Rightarrow> grid" where
  "front d = (if first d then grid_a d else grid_b d)"

text \<open>\<^verbatim>\<open>back()\<close>, read; the name \<open>back\<close> is taken by the proof language.\<close>

definition back_grid :: "double_buffered_grid \<Rightarrow> grid" where
  "back_grid d = (if first d then grid_b d else grid_a d)"

text \<open>
  \<^verbatim>\<open>back()\<close> returns a reference that the caller writes through. \<open>put_back d g\<close> is the
  double buffer after the grid behind that reference has become \<open>g\<close>.
\<close>

definition put_back :: "double_buffered_grid \<Rightarrow> grid \<Rightarrow> double_buffered_grid" where
  "put_back d g = (if first d then d\<lparr>grid_b := g\<rparr> else d\<lparr>grid_a := g\<rparr>)"

definition swap :: "double_buffered_grid \<Rightarrow> double_buffered_grid" where
  "swap d = d\<lparr>first := \<not> first d\<rparr>"

section \<open>The game\<close>

text \<open>
  C++ division and remainder truncate towards zero; \<^term>\<open>(div)\<close> on \<^typ>\<open>int\<close> rounds
  down.
\<close>

definition cdiv :: "int \<Rightarrow> int \<Rightarrow> int" where
  "cdiv i j = (if (i < 0) = (j < 0) then \<bar>i\<bar> div \<bar>j\<bar> else - (\<bar>i\<bar> div \<bar>j\<bar>))"

definition crem :: "int \<Rightarrow> int \<Rightarrow> int" where
  "crem i j = i - cdiv i j * j"

record game_of_life =
  buffer :: double_buffered_grid

definition frequency :: int where
  "frequency = 3"

text \<open>
  The seeding loop of the constructor,
  \<^verbatim>\<open>for (auto i = 0; i != width * height; ++i) grid(i % width, i / width) = distribution(engine) == 0;\<close>
  The random number library is not part of the program. Its call
  \<^verbatim>\<open>distribution(engine)\<close>, for a \<^verbatim>\<open>uniform_int_distribution<int>{lo, hi}\<close>, is the
  parameter \<open>draw lo hi\<close>: from the state of the engine it gives the number drawn and
  the next state of the engine.
\<close>

function seed_loop ::
    "(int \<Rightarrow> int \<Rightarrow> 'e \<Rightarrow> int \<times> 'e) \<Rightarrow> int \<Rightarrow> int \<Rightarrow> grid \<Rightarrow> 'e \<Rightarrow> int \<Rightarrow> error + grid" where
  "seed_loop draw w h g engine i =
     (if i = w * h then Inr g
      else if w = 0 then Inl DivisionByZero
      else (case draw 0 frequency engine of
              (drawn, engine') \<Rightarrow>
                (case set_cell g (crem i w) (cdiv i w) (drawn = 0) of
                   Inl e \<Rightarrow> Inl e
                 | Inr g' \<Rightarrow>
                     if INT_MAX \<le> i then Inl SignedOverflow
                     else seed_loop draw w h g' engine' (i + 1))))"
  by pat_completeness auto
termination
  by (relation "measure (\<lambda>(draw, w, h, g, engine, i). nat (INT_MAX - i))") auto

declare seed_loop.simps [simp del]

text \<open>
  The constructor \<^verbatim>\<open>game_of_life(int width, int height)\<close>. The engine is seeded from the
  clock; \<open>engine\<close> is the state it starts in. \<open>mem_a\<close> and \<open>mem_b\<close> are what the two
  fresh arrays hold.
\<close>

definition make_game_of_life ::
    "int \<Rightarrow> int \<Rightarrow> (nat \<Rightarrow> bool) \<Rightarrow> (nat \<Rightarrow> bool) \<Rightarrow> (int \<Rightarrow> int \<Rightarrow> 'e \<Rightarrow> int \<times> 'e) \<Rightarrow> 'e
      \<Rightarrow> error + game_of_life" where
  "make_game_of_life w h mem_a mem_b draw engine =
     (case make_double_buffered_grid w h mem_a mem_b of
        Inl e \<Rightarrow> Inl e
      | Inr buf \<Rightarrow>
          (case seed_loop draw w h (back_grid buf) engine 0 of
             Inl e \<Rightarrow> Inl e
           | Inr g \<Rightarrow> Inr \<lparr>buffer = swap (put_back buf g)\<rparr>))"

definition tick :: "game_of_life \<Rightarrow> error + game_of_life" where
  "tick gm =
     (case next_generation (front (buffer gm)) (back_grid (buffer gm)) of
        Inl e \<Rightarrow> Inl e
      | Inr out \<Rightarrow> Inr (gm\<lparr>buffer := swap (put_back (buffer gm) out)\<rparr>))"

subsection \<open>Rendering\<close>

text \<open>
  \<^verbatim>\<open>render\<close> draws through the terminal library. What it does to the terminal is the list
  of the library calls it makes, in order. The three block glyphs are the UTF-8 bytes of
  U+2588, U+2580 and U+2584.
\<close>

datatype call = Move int int | Addstr string | Refresh

definition full :: string where
  "full = [CHR 0xE2, CHR 0x96, CHR 0x88]"

definition upper :: string where
  "upper = [CHR 0xE2, CHR 0x96, CHR 0x80]"

definition lower :: string where
  "lower = [CHR 0xE2, CHR 0x96, CHR 0x84]"

text \<open>\<^verbatim>\<open>top ? (bottom ? full : upper) : (bottom ? lower : " ")\<close>\<close>

definition glyph :: "bool \<Rightarrow> bool \<Rightarrow> string" where
  "glyph top_cell bottom_cell =
     (if top_cell then (if bottom_cell then full else upper)
      else (if bottom_cell then lower else '' ''))"

function render_cols :: "grid \<Rightarrow> int \<Rightarrow> int \<Rightarrow> call list \<Rightarrow> error + call list" where
  "render_cols g y x calls =
     (if x = width g then Inr calls
      else (case get_cell g x y of
              Inl e \<Rightarrow> Inl e
            | Inr top_cell \<Rightarrow>
                (case get_cell g x (y + 1) of
                   Inl e \<Rightarrow> Inl e
                 | Inr bottom_cell \<Rightarrow>
                     if INT_MAX \<le> x then Inl SignedOverflow
                     else render_cols g y (x + 1) (calls @ [Addstr (glyph top_cell bottom_cell)]))))"
  by pat_completeness auto
termination
  by (relation "measure (\<lambda>(g, y, x, calls). nat (INT_MAX - x))") auto

function render_rows :: "grid \<Rightarrow> int \<Rightarrow> call list \<Rightarrow> error + call list" where
  "render_rows g y calls =
     (if y = height g then Inr calls
      else (case render_cols g y 0 (calls @ [Move (cdiv y 2) 0]) of
              Inl e \<Rightarrow> Inl e
            | Inr calls' \<Rightarrow>
                if INT_MAX - 2 < y then Inl SignedOverflow
                else render_rows g (y + 2) calls'))"
  by pat_completeness auto
termination
  by (relation "measure (\<lambda>(g, y, calls). nat (INT_MAX - y))") auto

declare render_cols.simps [simp del] render_rows.simps [simp del]

definition render :: "game_of_life \<Rightarrow> error + call list" where
  "render gm =
     (if crem (height (front (buffer gm))) 2 \<noteq> 0 then Inl (AssertionFailed EvenHeight)
      else (case render_rows (front (buffer gm)) 0 [] of
              Inl e \<Rightarrow> Inl e
            | Inr calls \<Rightarrow> Inr (calls @ [Refresh])))"

section \<open>The rules of the game, as the specification words them\<close>

text \<open>
  A position is alive when it is on the grid and its cell holds \<^verbatim>\<open>true\<close>; a position
  off the grid is never alive. The neighbour count of a position is the number of alive
  positions among the eight around it.
\<close>

definition alive :: "grid \<Rightarrow> int \<Rightarrow> int \<Rightarrow> bool" where
  "alive g x y = (in_bounds g x y \<and> data g ! nat (offset g x y))"

definition around :: "(int \<times> int) list" where
  "around = [(-1, -1), (-1, 0), (-1, 1), (0, -1), (0, 1), (1, -1), (1, 0), (1, 1)]"

definition neighbour_count :: "grid \<Rightarrow> int \<Rightarrow> int \<Rightarrow> nat" where
  "neighbour_count g x y = length (filter (\<lambda>(dx, dy). alive g (x + dx) (y + dy)) around)"

definition life_rule :: "grid \<Rightarrow> int \<Rightarrow> int \<Rightarrow> bool" where
  "life_rule g x y =
     (if alive g x y then neighbour_count g x y = 2 \<or> neighbour_count g x y = 3
      else neighbour_count g x y = 3)"

text \<open>The grid of the next generation: every cell of \<open>g\<close> replaced by what the rule gives.\<close>

definition generation :: "grid \<Rightarrow> grid" where
  "generation g =
     g\<lparr>data := map (\<lambda>i. life_rule g (int i mod width g) (int i div width g))
                  [0..<nat (width g * height g)]\<rparr>"

section \<open>Notions for the proofs\<close>

subsection \<open>The state of a sweep\<close>

text \<open>
  The destination in the middle of a sweep: its first \<open>k\<close> cells already hold the next
  generation of \<open>inp\<close>, the others still hold what \<open>out\<close> held.
\<close>

definition swept :: "grid \<Rightarrow> grid \<Rightarrow> nat \<Rightarrow> grid" where
  "swept inp out k = out\<lparr>data := take k (data (generation inp)) @ drop k (data out)\<rparr>"

subsection \<open>The sweep with its accesses recorded\<close>

text \<open>
  To say which cells a sweep reads and writes, the two accessors are given a record: a
  checked read of a grid reports \<open>Read\<close>, a checked write reports \<open>Write\<close>, each with
  the grid it touched and the position. The functions below are the functions of the
  generation rule with every call of \<^const>\<open>get_cell\<close> and \<^const>\<open>set_cell\<close> replaced by
  its recording twin, and the records put one after the other in the order of the calls.
  Nothing else differs.
\<close>

datatype which = Source | Destination

datatype access = Read which int int | Write which int int

definition get_cell_traced :: "which \<Rightarrow> grid \<Rightarrow> int \<Rightarrow> int \<Rightarrow> error + bool \<times> access list" where
  "get_cell_traced w g x y =
     (case get_cell g x y of Inl e \<Rightarrow> Inl e | Inr b \<Rightarrow> Inr (b, [Read w x y]))"

definition set_cell_traced :: "which \<Rightarrow> grid \<Rightarrow> int \<Rightarrow> int \<Rightarrow> bool \<Rightarrow> error + grid \<times> access list" where
  "set_cell_traced w g x y v =
     (case set_cell g x y v of Inl e \<Rightarrow> Inl e | Inr g' \<Rightarrow> Inr (g', [Write w x y]))"

definition counted_traced :: "bool \<Rightarrow> grid \<Rightarrow> int \<Rightarrow> int \<Rightarrow> error + int \<times> access list" where
  "counted_traced guard g x y =
     (if guard
      then (case get_cell_traced Source g x y of
              Inl e \<Rightarrow> Inl e
            | Inr (b, accesses) \<Rightarrow> Inr (if b then 1 else 0, accesses))
      else Inr (0, []))"

fun plus_traced ::
    "error + int \<times> access list \<Rightarrow> error + int \<times> access list \<Rightarrow> error + int \<times> access list" where
  "plus_traced (Inl e) _ = Inl e"
| "plus_traced (Inr p) (Inl e) = Inl e"
| "plus_traced (Inr (m, accesses)) (Inr (n, accesses')) = Inr (m + n, accesses @ accesses')"

definition neighbours_traced :: "grid \<Rightarrow> int \<Rightarrow> int \<Rightarrow> error + int \<times> access list" where
  "neighbours_traced inp x y =
     (let left = x \<noteq> 0;
          up = y \<noteq> 0;
          right = x \<noteq> width inp - 1;
          down = y \<noteq> height inp - 1
      in plus_traced (plus_traced (plus_traced (plus_traced (plus_traced (plus_traced (plus_traced
           (counted_traced (left \<and> up) inp (x - 1) (y - 1))
           (counted_traced left inp (x - 1) y))
           (counted_traced (left \<and> down) inp (x - 1) (y + 1)))
           (counted_traced up inp x (y - 1)))
           (counted_traced down inp x (y + 1)))
           (counted_traced (right \<and> up) inp (x + 1) (y - 1)))
           (counted_traced right inp (x + 1) y))
           (counted_traced (right \<and> down) inp (x + 1) (y + 1)))"

definition cell_step_traced :: "grid \<Rightarrow> grid \<Rightarrow> int \<Rightarrow> int \<Rightarrow> error + grid \<times> access list" where
  "cell_step_traced inp out x y =
     (case get_cell_traced Source inp x y of
        Inl e \<Rightarrow> Inl e
      | Inr (currently_alive, read_here) \<Rightarrow>
          (case neighbours_traced inp x y of
             Inl e \<Rightarrow> Inl e
           | Inr (n, read_around) \<Rightarrow>
               (case (if currently_alive then set_cell_traced Destination out x y (n = 2 \<or> n = 3)
                      else set_cell_traced Destination out x y (n = 3)) of
                  Inl e \<Rightarrow> Inl e
                | Inr (out', written) \<Rightarrow> Inr (out', read_here @ read_around @ written))))"

function col_loop_traced ::
    "grid \<Rightarrow> grid \<Rightarrow> access list \<Rightarrow> int \<Rightarrow> int \<Rightarrow> error + grid \<times> access list" where
  "col_loop_traced inp out accesses y x =
     (if x = width inp then Inr (out, accesses)
      else (case cell_step_traced inp out x y of
              Inl e \<Rightarrow> Inl e
            | Inr (out', accesses') \<Rightarrow>
                if INT_MAX \<le> x then Inl SignedOverflow
                else col_loop_traced inp out' (accesses @ accesses') y (x + 1)))"
  by pat_completeness auto
termination
  by (relation "measure (\<lambda>(inp, out, accesses, y, x). nat (INT_MAX - x))") auto

function row_loop_traced ::
    "grid \<Rightarrow> grid \<Rightarrow> access list \<Rightarrow> int \<Rightarrow> error + grid \<times> access list" where
  "row_loop_traced inp out accesses y =
     (if y = height inp then Inr (out, accesses)
      else (case col_loop_traced inp out accesses y 0 of
              Inl e \<Rightarrow> Inl e
            | Inr (out', accesses') \<Rightarrow>
                if INT_MAX \<le> y then Inl SignedOverflow
                else row_loop_traced inp out' accesses' (y + 1)))"
  by pat_completeness auto
termination
  by (relation "measure (\<lambda>(inp, out, accesses, y). nat (INT_MAX - y))") auto

declare col_loop_traced.simps [simp del] row_loop_traced.simps [simp del]

definition next_generation_traced :: "grid \<Rightarrow> grid \<Rightarrow> error + grid \<times> access list" where
  "next_generation_traced inp out =
     (if \<not> (width inp = width out \<and> height inp = height out)
      then Inl (AssertionFailed EqualSize)
      else row_loop_traced inp out [] 0)"

text \<open>
  What a record is asked: that an access is a read of the source, and the positions of
  the destination that were written, in order, one entry for each write.
\<close>

fun source_read :: "access \<Rightarrow> bool" where
  "source_read (Read Source x y) = True"
| "source_read (Read Destination x y) = False"
| "source_read (Write w x y) = False"

fun destination_write :: "access \<Rightarrow> bool" where
  "destination_write (Write Destination x y) = True"
| "destination_write (Write Source x y) = False"
| "destination_write (Read w x y) = False"

fun written_at :: "access \<Rightarrow> (int \<times> int) list" where
  "written_at (Write w x y) = [(x, y)]"
| "written_at (Read w x y) = []"

definition writes :: "access list \<Rightarrow> (int \<times> int) list" where
  "writes accesses = concat (map written_at accesses)"

definition source_reads_only :: "error + 'a \<times> access list \<Rightarrow> bool" where
  "source_reads_only r = (case r of Inl e \<Rightarrow> True | Inr (v, accesses) \<Rightarrow> list_all source_read accesses)"

text \<open>The positions of a grid, row by row.\<close>

definition positions :: "grid \<Rightarrow> (int \<times> int) list" where
  "positions g = concat (map (\<lambda>y. map (\<lambda>x. (x, y)) [0..width g - 1]) [0..height g - 1])"

subsection \<open>The states of a double buffer\<close>

text \<open>
  The double buffers a program can hold: one the constructor has built, and from there
  any number of calls of \<^verbatim>\<open>swap()\<close> and of assignments to a cell through \<^verbatim>\<open>back()\<close>.
  The class has no other member, and the dimensions of a grid are \<^verbatim>\<open>const\<close>.
\<close>

inductive reachable :: "double_buffered_grid \<Rightarrow> bool" where
  constructed: "make_double_buffered_grid w h mem_a mem_b = Inr d \<Longrightarrow> reachable d"
| swapped: "reachable d \<Longrightarrow> reachable (swap d)"
| assigned: "reachable d \<Longrightarrow> set_cell (back_grid d) x y v = Inr g \<Longrightarrow> reachable (put_back d g)"

text \<open>Both grids well-formed and of the same dimensions.\<close>

definition buffer_ok :: "double_buffered_grid \<Rightarrow> bool" where
  "buffer_ok d = (grid_ok (grid_a d) \<and> grid_ok (grid_b d) \<and>
                  width (grid_a d) = width (grid_b d) \<and> height (grid_a d) = height (grid_b d))"

subsection \<open>The draws of the seeding loop\<close>

text \<open>
  The state of the engine after \<open>k\<close> draws from the distribution over \<open>lo\<close> to \<open>hi\<close>,
  and the number the next draw gives.
\<close>

fun engine_after :: "(int \<Rightarrow> int \<Rightarrow> 'e \<Rightarrow> int \<times> 'e) \<Rightarrow> int \<Rightarrow> int \<Rightarrow> 'e \<Rightarrow> nat \<Rightarrow> 'e" where
  "engine_after draw lo hi engine 0 = engine"
| "engine_after draw lo hi engine (Suc k) = snd (draw lo hi (engine_after draw lo hi engine k))"

definition drawn_at :: "(int \<Rightarrow> int \<Rightarrow> 'e \<Rightarrow> int \<times> 'e) \<Rightarrow> int \<Rightarrow> int \<Rightarrow> 'e \<Rightarrow> nat \<Rightarrow> int" where
  "drawn_at draw lo hi engine k = fst (draw lo hi (engine_after draw lo hi engine k))"

text \<open>The grid in the middle of the seeding: its first \<open>k\<close> cells hold the outcome of their draws.\<close>

definition seeded :: "(int \<Rightarrow> int \<Rightarrow> 'e \<Rightarrow> int \<times> 'e) \<Rightarrow> 'e \<Rightarrow> grid \<Rightarrow> nat \<Rightarrow> grid" where
  "seeded draw engine g k =
     g\<lparr>data := map (\<lambda>i. drawn_at draw 0 frequency engine i = 0) [0..<k] @ drop k (data g)\<rparr>"

section \<open>Cell accesses and the neighbour count\<close>

lemma offset_in_range:
  assumes "grid_ok g" and "in_bounds g x y"
  shows "0 \<le> offset g x y \<and> nat (offset g x y) < length (data g)"
proof -
  from assms have x: "0 \<le> x" "x < width g" and y: "0 \<le> y" "y + 1 \<le> height g"
    by (simp_all add: in_bounds_def)
  from assms have len: "length (data g) = nat (width g * height g)"
    by (simp add: grid_ok_def)
  have "0 \<le> y * width g" using x y by simp
  then have lo: "0 \<le> offset g x y" using x by (simp add: offset_def)
  have "(y + 1) * width g \<le> height g * width g"
    using y x by (intro mult_right_mono) simp_all
  then have "offset g x y < width g * height g"
    using x by (simp add: offset_def algebra_simps)
  with lo len show ?thesis by simp
qed

lemma get_cell_alive:
  "grid_ok g \<Longrightarrow> in_bounds g x y \<Longrightarrow> get_cell g x y = Inr (alive g x y)"
  using offset_in_range [of g x y] by (simp add: get_cell_def alive_def)

lemma counted_alive:
  assumes "grid_ok g" and "guard = in_bounds g x y"
  shows "counted guard g x y = Inr (if alive g x y then 1 else 0)"
proof (cases guard)
  case True
  with assms show ?thesis by (simp add: counted_def get_cell_alive)
next
  case False
  with assms show ?thesis by (simp add: counted_def alive_def)
qed

lemma neighbours_count:
  assumes ok: "grid_ok g" and inb: "in_bounds g x y"
  shows "neighbours g x y = Inr (int (neighbour_count g x y))"
proof -
  from inb have b: "0 \<le> x" "x < width g" "0 \<le> y" "y < height g"
    by (simp_all add: in_bounds_def)
  have c1: "counted (x \<noteq> 0 \<and> y \<noteq> 0) g (x - 1) (y - 1) = Inr (if alive g (x - 1) (y - 1) then 1 else 0)"
    using b by (intro counted_alive [OF ok]) (auto simp: in_bounds_def)
  have c2: "counted (x \<noteq> 0) g (x - 1) y = Inr (if alive g (x - 1) y then 1 else 0)"
    using b by (intro counted_alive [OF ok]) (auto simp: in_bounds_def)
  have c3: "counted (x \<noteq> 0 \<and> y \<noteq> height g - 1) g (x - 1) (y + 1) = Inr (if alive g (x - 1) (y + 1) then 1 else 0)"
    using b by (intro counted_alive [OF ok]) (auto simp: in_bounds_def)
  have c4: "counted (y \<noteq> 0) g x (y - 1) = Inr (if alive g x (y - 1) then 1 else 0)"
    using b by (intro counted_alive [OF ok]) (auto simp: in_bounds_def)
  have c5: "counted (y \<noteq> height g - 1) g x (y + 1) = Inr (if alive g x (y + 1) then 1 else 0)"
    using b by (intro counted_alive [OF ok]) (auto simp: in_bounds_def)
  have c6: "counted (x \<noteq> width g - 1 \<and> y \<noteq> 0) g (x + 1) (y - 1) = Inr (if alive g (x + 1) (y - 1) then 1 else 0)"
    using b by (intro counted_alive [OF ok]) (auto simp: in_bounds_def)
  have c7: "counted (x \<noteq> width g - 1) g (x + 1) y = Inr (if alive g (x + 1) y then 1 else 0)"
    using b by (intro counted_alive [OF ok]) (auto simp: in_bounds_def)
  have c8: "counted (x \<noteq> width g - 1 \<and> y \<noteq> height g - 1) g (x + 1) (y + 1) = Inr (if alive g (x + 1) (y + 1) then 1 else 0)"
    using b by (intro counted_alive [OF ok]) (auto simp: in_bounds_def)
  show ?thesis
    unfolding neighbours_def Let_def c1 c2 c3 c4 c5 c6 c7 c8
    by (simp add: neighbour_count_def around_def)
qed

lemma cell_step_rule:
  assumes "grid_ok inp" and "in_bounds inp x y"
  shows "cell_step inp out x y = set_cell out x y (life_rule inp x y)"
  using assms
  by (simp add: cell_step_def get_cell_alive neighbours_count life_rule_def)


section \<open>The sweep computes the next generation\<close>

lemma length_generation:
  "length (data (generation g)) = nat (width g * height g)"
  by (simp add: generation_def)

lemma nth_generation:
  assumes "grid_ok g" and "in_bounds g x y"
  shows "data (generation g) ! nat (offset g x y) = life_rule g x y"
proof -
  from assms have b: "0 \<le> x" "x < width g" "0 \<le> y"
    by (simp_all add: in_bounds_def)
  from offset_in_range [OF assms] assms(1)
  have k: "0 \<le> offset g x y" "nat (offset g x y) < nat (width g * height g)"
    by (simp_all add: grid_ok_def)
  have "offset g x y mod width g = x" "offset g x y div width g = y"
    using b by (simp_all add: offset_def)
  with k show ?thesis by (simp add: generation_def)
qed

lemma set_cell_swept:
  assumes ok: "grid_ok inp" and inb: "in_bounds inp x y"
    and dims: "width out = width inp" "height out = height inp"
    and len: "length (data out) = nat (width inp * height inp)"
  shows "set_cell (swept inp out (nat (offset inp x y))) x y (life_rule inp x y)
         = Inr (swept inp out (Suc (nat (offset inp x y))))"
proof -
  define k where "k = nat (offset inp x y)"
  define G where "G = data (generation inp)"
  define D where "D = data out"
  from offset_in_range [OF ok inb] ok
  have k: "0 \<le> offset inp x y" "k < nat (width inp * height inp)"
    by (simp_all add: grid_ok_def k_def)
  have lG: "length G = nat (width inp * height inp)"
    by (simp add: G_def length_generation)
  have lD: "length D = nat (width inp * height inp)"
    by (simp add: D_def len)
  have v: "G ! k = life_rule inp x y"
    unfolding G_def k_def by (rule nth_generation [OF ok inb])
  have d: "drop k D = D ! k # drop (Suc k) D"
    using k lD by (simp add: Cons_nth_drop_Suc)
  have "(take k G @ drop k D)[k := G ! k] = take k G @ (drop k D)[0 := G ! k]"
    using k lG by (simp add: list_update_append)
  also have "\<dots> = take k G @ G ! k # drop (Suc k) D"
    by (subst d) simp
  also have "\<dots> = take (Suc k) G @ drop (Suc k) D"
    using k lG by (simp add: take_Suc_conv_app_nth)
  finally have upd: "(take k G @ drop k D)[k := life_rule inp x y] = take (Suc k) G @ drop (Suc k) D"
    by (simp add: v)
  have off: "offset (swept inp out k) x y = offset inp x y"
    by (simp add: offset_def swept_def dims)
  have inb': "in_bounds (swept inp out k) x y"
    using inb by (simp add: in_bounds_def swept_def dims)
  have len': "length (data (swept inp out k)) = nat (width inp * height inp)"
    using k lG lD by (simp add: swept_def G_def [symmetric] D_def [symmetric])
  have "set_cell (swept inp out k) x y (life_rule inp x y)
        = Inr ((swept inp out k)\<lparr>data := (data (swept inp out k))[k := life_rule inp x y]\<rparr>)"
    using inb' k len' by (simp add: set_cell_def off k_def [symmetric])
  also have "(swept inp out k)\<lparr>data := (data (swept inp out k))[k := life_rule inp x y]\<rparr>
             = swept inp out (Suc k)"
    using upd by (simp add: swept_def G_def D_def)
  finally show ?thesis by (simp add: k_def)
qed

lemma width_le_INT_MAX: "grid_ok g \<Longrightarrow> width g \<le> INT_MAX"
  by (simp add: grid_ok_def)

lemma col_loop_swept:
  assumes ok: "grid_ok inp"
    and dims: "width out = width inp" "height out = height inp"
    and len: "length (data out) = nat (width inp * height inp)"
    and y: "0 \<le> y" "y < height inp"
  shows "0 \<le> x \<Longrightarrow> x \<le> width inp \<Longrightarrow>
         col_loop inp (swept inp out (nat (offset inp x y))) y x
         = Inr (swept inp out (nat (offset inp (width inp) y)))"
proof (induction "nat (width inp - x)" arbitrary: x)
  case 0
  then have "x = width inp" by simp
  then show ?case by (simp add: col_loop.simps)
next
  case (Suc n)
  then have x: "0 \<le> x" "x < width inp" by simp_all
  then have inb: "in_bounds inp x y" using y by (simp add: in_bounds_def)
  have nx: "\<not> INT_MAX \<le> x" using x width_le_INT_MAX [OF ok] by simp
  have step: "cell_step inp (swept inp out (nat (offset inp x y))) x y
              = Inr (swept inp out (Suc (nat (offset inp x y))))"
    by (simp add: cell_step_rule [OF ok inb] set_cell_swept [OF ok inb dims len])
  have "0 \<le> y * width inp" using x y by simp
  then have nxt: "Suc (nat (offset inp x y)) = nat (offset inp (x + 1) y)"
    using x by (simp add: offset_def nat_add_distrib)
  have IH: "col_loop inp (swept inp out (nat (offset inp (x + 1) y))) y (x + 1)
            = Inr (swept inp out (nat (offset inp (width inp) y)))"
    using Suc.hyps(2) x by (intro Suc.hyps(1)) simp_all
  show ?case
    using x nx by (subst col_loop.simps) (simp add: step nxt IH)
qed

lemma row_loop_swept:
  assumes ok: "grid_ok inp"
    and dims: "width out = width inp" "height out = height inp"
    and len: "length (data out) = nat (width inp * height inp)"
  shows "0 \<le> y \<Longrightarrow> y \<le> height inp \<Longrightarrow>
         row_loop inp (swept inp out (nat (offset inp 0 y))) y
         = Inr (swept inp out (nat (offset inp 0 (height inp))))"
proof (induction "nat (height inp - y)" arbitrary: y)
  case 0
  then have "y = height inp" by simp
  then show ?case by (simp add: row_loop.simps)
next
  case (Suc n)
  then have y: "0 \<le> y" "y < height inp" by simp_all
  have ny: "\<not> INT_MAX \<le> y" using y ok by (simp add: grid_ok_def)
  have w: "0 \<le> width inp" using ok by (simp add: grid_ok_def)
  have row: "col_loop inp (swept inp out (nat (offset inp 0 y))) y 0
             = Inr (swept inp out (nat (offset inp (width inp) y)))"
    using col_loop_swept [OF ok dims len y, of 0] w by simp
  have nxt: "offset inp (width inp) y = offset inp 0 (y + 1)"
    by (simp add: offset_def algebra_simps)
  have IH: "row_loop inp (swept inp out (nat (offset inp 0 (y + 1)))) (y + 1)
            = Inr (swept inp out (nat (offset inp 0 (height inp))))"
    using Suc.hyps(2) y by (intro Suc.hyps(1)) simp_all
  show ?case
    using y ny by (subst row_loop.simps) (simp add: row nxt IH)
qed

lemma next_generation_generation:
  assumes ok: "grid_ok inp" and ok': "grid_ok out"
    and dims: "width inp = width out" "height inp = height out"
  shows "next_generation inp out = Inr (generation inp)"
proof -
  have len: "length (data out) = nat (width inp * height inp)"
    using ok' dims by (simp add: grid_ok_def)
  have h: "0 \<le> height inp" using ok by (simp add: grid_ok_def)
  have start: "swept inp out (nat (offset inp 0 0)) = out"
    by (simp add: swept_def offset_def)
  have fin: "swept inp out (nat (offset inp 0 (height inp))) = generation inp"
    using len dims
    by (simp add: swept_def offset_def generation_def mult.commute)
  from row_loop_swept [OF ok dims(1) [symmetric] dims(2) [symmetric] len, of 0] h
  have "row_loop inp out 0 = Inr (generation inp)"
    by (simp add: start fin)
  then show ?thesis using dims by (simp add: next_generation_def)
qed


lemma alive_generation:
  assumes "grid_ok g"
  shows "alive (generation g) x y = (in_bounds g x y \<and> life_rule g x y)"
proof (cases "in_bounds g x y")
  case True
  have "offset (generation g) x y = offset g x y"
    by (simp add: offset_def generation_def)
  moreover have "in_bounds (generation g) x y"
    using True by (simp add: in_bounds_def generation_def)
  ultimately show ?thesis
    using True nth_generation [OF assms True] by (simp add: alive_def)
next
  case False
  then have "\<not> in_bounds (generation g) x y"
    by (simp add: in_bounds_def generation_def)
  with False show ?thesis by (simp add: alive_def)
qed

lemma grid_ok_generation: "grid_ok g \<Longrightarrow> grid_ok (generation g)"
  by (simp add: grid_ok_def generation_def)

lemma dims_generation: "width (generation g) = width g" "height (generation g) = height g"
  by (simp_all add: generation_def)

lemma get_cell_generation:
  assumes "grid_ok g" and "in_bounds g x y"
  shows "get_cell (generation g) x y = Inr (life_rule g x y)"
proof -
  have "in_bounds (generation g) x y"
    using assms(2) by (simp add: in_bounds_def generation_def)
  then show ?thesis
    using assms alive_generation [OF assms(1), of x y]
    by (simp add: get_cell_alive grid_ok_generation)
qed


subsection \<open>Claim C1: the rules of the game\<close>

text \<open>
  C1. For two well-formed grids of equal dimensions and every cell \<open>(x, y)\<close> on the grid,
  \<^const>\<open>next_generation\<close> returns a destination whose cell \<open>(x, y)\<close> is \<^verbatim>\<open>true\<close>
  exactly when the source cell is alive and has 2 or 3 alive neighbours on the grid, or
  is dead and has exactly 3; in every other case it is \<^verbatim>\<open>false\<close>.
\<close>

theorem next_generation_applies_life_rules:
  assumes "grid_ok inp" and "grid_ok out"
    and "width inp = width out" and "height inp = height out"
    and "in_bounds inp x y"
  shows "\<exists>out'. next_generation inp out = Inr out' \<and>
           get_cell out' x y =
             Inr (alive inp x y \<and> (neighbour_count inp x y = 2 \<or> neighbour_count inp x y = 3) \<or>
                  \<not> alive inp x y \<and> neighbour_count inp x y = 3)"
proof -
  have "life_rule inp x y =
          (alive inp x y \<and> (neighbour_count inp x y = 2 \<or> neighbour_count inp x y = 3) \<or>
           \<not> alive inp x y \<and> neighbour_count inp x y = 3)"
    by (simp add: life_rule_def)
  then show ?thesis
    using next_generation_generation [OF assms(1-4)] get_cell_generation [OF assms(1,5)]
    by simp
qed

theorem next_generation_applies_life_rules_witness:
  "grid_ok \<lparr>width = 3, height = 3, data = [False, True, False, False, True, True, False, False, False]\<rparr> \<and>
   grid_ok \<lparr>width = 3, height = 3, data = [True, True, True, True, True, True, True, True, True]\<rparr> \<and>
   in_bounds \<lparr>width = 3, height = 3, data = [False, True, False, False, True, True, False, False, False]\<rparr> 0 0 \<and>
   neighbour_count \<lparr>width = 3, height = 3, data = [False, True, False, False, True, True, False, False, False]\<rparr> 0 0 = 2 \<and>
   neighbour_count \<lparr>width = 3, height = 3, data = [False, True, False, False, True, True, False, False, False]\<rparr> 2 0 = 3 \<and>
   (\<exists>out'. next_generation
              \<lparr>width = 3, height = 3, data = [False, True, False, False, True, True, False, False, False]\<rparr>
              \<lparr>width = 3, height = 3, data = [True, True, True, True, True, True, True, True, True]\<rparr> = Inr out' \<and>
           get_cell out' 0 0 = Inr False \<and> get_cell out' 2 0 = Inr True)"
  using next_generation_applies_life_rules
     [of "\<lparr>width = 3, height = 3, data = [False, True, False, False, True, True, False, False, False]\<rparr>"
         "\<lparr>width = 3, height = 3, data = [True, True, True, True, True, True, True, True, True]\<rparr>" 0 0]
    next_generation_applies_life_rules
     [of "\<lparr>width = 3, height = 3, data = [False, True, False, False, True, True, False, False, False]\<rparr>"
         "\<lparr>width = 3, height = 3, data = [True, True, True, True, True, True, True, True, True]\<rparr>" 2 0]
  by (auto simp: grid_ok_def INT_MAX_def in_bounds_def alive_def offset_def neighbour_count_def around_def)

section \<open>The accesses of a sweep\<close>

lemma set_rows:
  "set (concat (map (\<lambda>y'. map (\<lambda>x. (x, y')) [0..w - 1]) [lo..hi]))
   = {(x, y). 0 \<le> x \<and> x < w \<and> lo \<le> y \<and> y \<le> hi}"
  by auto

lemma distinct_rows:
  "distinct (concat (map (\<lambda>y'. map (\<lambda>x. (x, y')) [0..w - 1]) [lo..(hi::int)]))"
proof (induction "nat (hi + 1 - lo)" arbitrary: lo)
  case 0
  then have "hi < lo" by simp
  then show ?case by simp
next
  case (Suc n)
  then have le: "lo \<le> hi" by simp
  have row: "distinct (map (\<lambda>x. (x, lo)) [0..w - 1])"
    by (simp add: distinct_map inj_on_def)
  have rest: "distinct (concat (map (\<lambda>y'. map (\<lambda>x. (x, y')) [0..w - 1]) [lo + 1..hi]))"
    using Suc.hyps(2) by (intro Suc.hyps(1)) simp
  have disj: "set (map (\<lambda>x. (x, lo)) [0..w - 1])
              \<inter> set (concat (map (\<lambda>y'. map (\<lambda>x. (x, y')) [0..w - 1]) [lo + 1..hi])) = {}"
    unfolding set_rows by auto
  show ?case
    unfolding upto_rec1 [OF le] using row rest disj by simp
qed

lemma set_positions: "set (positions g) = {(x, y). in_bounds g x y}"
  unfolding positions_def set_rows by (auto simp: in_bounds_def)

lemma distinct_positions: "distinct (positions g)"
  unfolding positions_def by (rule distinct_rows)


lemma get_cell_traced_erase:
  "map_sum id fst (get_cell_traced w g x y) = get_cell g x y"
  by (simp add: get_cell_traced_def split: sum.splits)

lemma counted_traced_erase:
  "map_sum id fst (counted_traced guard g x y) = counted guard g x y"
  by (simp add: counted_traced_def counted_def get_cell_traced_def split: sum.splits)

lemma plus_traced_erase:
  "map_sum id fst (plus_traced p q) = plus_e (map_sum id fst p) (map_sum id fst q)"
  by (cases "(p, q)" rule: plus_traced.cases) simp_all

lemma neighbours_traced_erase:
  "map_sum id fst (neighbours_traced g x y) = neighbours g x y"
  by (simp only: neighbours_traced_def neighbours_def Let_def plus_traced_erase counted_traced_erase)

lemma cell_step_traced_erase:
  "map_sum id fst (cell_step_traced inp out x y) = cell_step inp out x y"
proof -
  have n: "neighbours inp x y = map_sum id fst (neighbours_traced inp x y)"
    by (simp only: neighbours_traced_erase)
  show ?thesis
    unfolding cell_step_traced_def cell_step_def n get_cell_traced_def set_cell_traced_def
    by (auto split: sum.splits prod.splits)
qed

lemma col_loop_traced_erase:
  "map_sum id fst (col_loop_traced inp out accesses y x) = col_loop inp out y x"
proof (induction inp out accesses y x rule: col_loop_traced.induct)
  case (1 inp out accesses y x)
  show ?case
  proof (cases "cell_step_traced inp out x y")
    case (Inl e)
    with cell_step_traced_erase [of inp out x y]
    have "cell_step inp out x y = Inl e" by simp
    with Inl show ?thesis
      by (subst col_loop_traced.simps, subst col_loop.simps) simp
  next
    case (Inr p)
    obtain out' accesses' where p: "p = (out', accesses')" by (cases p)
    with Inr cell_step_traced_erase [of inp out x y]
    have c: "cell_step inp out x y = Inr out'" by simp
    show ?thesis
      using Inr p c "1" [of "(out', accesses')" out' accesses']
      by (subst col_loop_traced.simps, subst col_loop.simps) (simp add: id_def)
  qed
qed

lemma row_loop_traced_erase:
  "map_sum id fst (row_loop_traced inp out accesses y) = row_loop inp out y"
proof (induction inp out accesses y rule: row_loop_traced.induct)
  case (1 inp out accesses y)
  show ?case
  proof (cases "col_loop_traced inp out accesses y 0")
    case (Inl e)
    with col_loop_traced_erase [of inp out accesses y 0]
    have "col_loop inp out y 0 = Inl e" by simp
    with Inl show ?thesis
      by (subst row_loop_traced.simps, subst row_loop.simps) simp
  next
    case (Inr p)
    obtain out' accesses' where p: "p = (out', accesses')" by (cases p)
    with Inr col_loop_traced_erase [of inp out accesses y 0]
    have c: "col_loop inp out y 0 = Inr out'" by simp
    show ?thesis
      using Inr p c "1" [of "(out', accesses')" out' accesses']
      by (subst row_loop_traced.simps, subst row_loop.simps) (simp add: id_def)
  qed
qed

lemma next_generation_traced_erase:
  "map_sum id fst (next_generation_traced inp out) = next_generation inp out"
  by (simp add: next_generation_traced_def next_generation_def row_loop_traced_erase)


lemma source_reads_only_counted: "source_reads_only (counted_traced guard g x y)"
  by (simp add: source_reads_only_def counted_traced_def get_cell_traced_def split: sum.splits)

lemma source_reads_only_plus:
  "source_reads_only p \<Longrightarrow> source_reads_only q \<Longrightarrow> source_reads_only (plus_traced p q)"
  by (cases "(p, q)" rule: plus_traced.cases) (simp_all add: source_reads_only_def)

lemma source_reads_only_neighbours: "source_reads_only (neighbours_traced g x y)"
  unfolding neighbours_traced_def Let_def
  by (intro source_reads_only_plus source_reads_only_counted)

lemma writes_append: "writes (as @ bs) = writes as @ writes bs"
  by (simp add: writes_def)

lemma writes_source_reads: "list_all source_read as \<Longrightarrow> writes as = []"
proof (induction as)
  case Nil
  then show ?case by (simp add: writes_def)
next
  case (Cons a as)
  then have "source_read a" and "writes as = []" by simp_all
  then show ?case by (cases a rule: source_read.cases) (simp_all add: writes_def)
qed

lemma cell_step_traced_accesses:
  assumes "cell_step_traced inp out x y = Inr (out', accesses)"
  shows "\<exists>reads. accesses = reads @ [Write Destination x y] \<and> list_all source_read reads"
proof -
  from assms obtain c n read_around where
    nb: "neighbours_traced inp x y = Inr (n, read_around)" and
    acc: "accesses = [Read Source x y] @ read_around @ [Write Destination x y]"
    by (auto simp: cell_step_traced_def get_cell_traced_def set_cell_traced_def
          split: sum.splits prod.splits if_splits)
  from source_reads_only_neighbours [of inp x y] nb
  have "list_all source_read read_around" by (simp add: source_reads_only_def)
  then have "list_all source_read ([Read Source x y] @ read_around)" by simp
  with acc show ?thesis by (intro exI [of _ "[Read Source x y] @ read_around"]) simp
qed

lemma cell_step_traced_allowed:
  assumes "cell_step_traced inp out x y = Inr (out', accesses)"
  shows "list_all (\<lambda>a. source_read a \<or> destination_write a) accesses"
    and "writes accesses = [(x, y)]"
proof -
  from cell_step_traced_accesses [OF assms] obtain reads where
    acc: "accesses = reads @ [Write Destination x y]" and r: "list_all source_read reads"
    by blast
  from r have "list_all (\<lambda>a. source_read a \<or> destination_write a) reads"
    by (simp add: list_all_iff)
  with acc show "list_all (\<lambda>a. source_read a \<or> destination_write a) accesses" by simp
  show "writes accesses = [(x, y)]"
    unfolding acc writes_append writes_source_reads [OF r] by (simp add: writes_def)
qed

lemma col_loop_traced_accesses:
  "col_loop_traced inp out accesses y x = Inr (g, accesses') \<Longrightarrow> x \<le> width inp \<Longrightarrow>
   list_all (\<lambda>a. source_read a \<or> destination_write a) accesses \<Longrightarrow>
   list_all (\<lambda>a. source_read a \<or> destination_write a) accesses' \<and>
   writes accesses' = writes accesses @ map (\<lambda>x'. (x', y)) [x..width inp - 1]"
proof (induction inp out accesses y x rule: col_loop_traced.induct)
  case (1 inp out accesses y x)
  show ?case
  proof (cases "x = width inp")
    case True
    with "1.prems" show ?thesis by (simp add: col_loop_traced.simps)
  next
    case False
    with "1.prems" have lt: "x \<le> width inp - 1" by simp
    from "1.prems"(1) False obtain out' new where
      step: "cell_step_traced inp out x y = Inr (out', new)" and nov: "\<not> INT_MAX \<le> x" and
      rest: "col_loop_traced inp out' (accesses @ new) y (x + 1) = Inr (g, accesses')"
      by (subst (asm) col_loop_traced.simps) (auto split: sum.splits if_splits prod.splits)
    have al: "list_all (\<lambda>a. source_read a \<or> destination_write a) (accesses @ new)"
      using "1.prems"(3) cell_step_traced_allowed(1) [OF step] by simp
    have "list_all (\<lambda>a. source_read a \<or> destination_write a) accesses' \<and>
          writes accesses' = writes (accesses @ new) @ map (\<lambda>x'. (x', y)) [x + 1..width inp - 1]"
      using False step nov rest lt al by (intro "1.IH" [of "(out', new)"]) simp_all
    then show ?thesis
      using lt cell_step_traced_allowed(2) [OF step]
      by (simp add: upto_rec1 [of x] writes_append)
  qed
qed

lemma row_loop_traced_accesses:
  "row_loop_traced inp out accesses y = Inr (g, accesses') \<Longrightarrow> y \<le> height inp \<Longrightarrow>
   0 \<le> width inp \<Longrightarrow>
   list_all (\<lambda>a. source_read a \<or> destination_write a) accesses \<Longrightarrow>
   list_all (\<lambda>a. source_read a \<or> destination_write a) accesses' \<and>
   writes accesses' = writes accesses @
     concat (map (\<lambda>y'. map (\<lambda>x. (x, y')) [0..width inp - 1]) [y..height inp - 1])"
proof (induction inp out accesses y rule: row_loop_traced.induct)
  case (1 inp out accesses y)
  show ?case
  proof (cases "y = height inp")
    case True
    with "1.prems" show ?thesis by (simp add: row_loop_traced.simps)
  next
    case False
    with "1.prems" have lt: "y \<le> height inp - 1" by simp
    from "1.prems"(1) False obtain out' mid where
      row: "col_loop_traced inp out accesses y 0 = Inr (out', mid)" and nov: "\<not> INT_MAX \<le> y" and
      rest: "row_loop_traced inp out' mid (y + 1) = Inr (g, accesses')"
      by (subst (asm) row_loop_traced.simps) (auto split: sum.splits if_splits prod.splits)
    from col_loop_traced_accesses [OF row "1.prems"(3,4)]
    have al: "list_all (\<lambda>a. source_read a \<or> destination_write a) mid"
      and ws: "writes mid = writes accesses @ map (\<lambda>x. (x, y)) [0..width inp - 1]"
      by simp_all
    have "list_all (\<lambda>a. source_read a \<or> destination_write a) accesses' \<and>
          writes accesses' = writes mid @
            concat (map (\<lambda>y'. map (\<lambda>x. (x, y')) [0..width inp - 1]) [y + 1..height inp - 1])"
      using False row nov rest lt "1.prems"(3) al by (intro "1.IH" [of "(out', mid)"]) simp_all
    then show ?thesis using lt ws by (simp add: upto_rec1 [of y])
  qed
qed

lemma next_generation_traced_result:
  assumes ok: "grid_ok inp" and ok': "grid_ok out"
    and dims: "width inp = width out" "height inp = height out"
  shows "\<exists>accesses. next_generation_traced inp out = Inr (generation inp, accesses) \<and>
           list_all (\<lambda>a. source_read a \<or> destination_write a) accesses \<and>
           writes accesses = positions inp"
proof -
  have "map_sum id fst (next_generation_traced inp out) = Inr (generation inp)"
    using next_generation_generation [OF ok ok' dims]
    by (simp add: next_generation_traced_erase)
  then obtain accesses where r: "next_generation_traced inp out = Inr (generation inp, accesses)"
    by (cases "next_generation_traced inp out") auto
  then have "row_loop_traced inp out [] 0 = Inr (generation inp, accesses)"
    using dims by (simp add: next_generation_traced_def)
  then have "list_all (\<lambda>a. source_read a \<or> destination_write a) accesses \<and>
      writes accesses = writes [] @
        concat (map (\<lambda>y'. map (\<lambda>x. (x, y')) [0..width inp - 1]) [0..height inp - 1])"
    using ok by (intro row_loop_traced_accesses) (simp_all add: grid_ok_def)
  with r show ?thesis by (simp add: positions_def writes_def)
qed


lemma count_list_distinct:
  "distinct xs \<Longrightarrow> count_list xs a = (if a \<in> set xs then 1 else 0)"
  by (induction xs) auto

lemma count_list_positions:
  "count_list (positions g) (x, y) = (if in_bounds g x y then 1 else 0)"
  using count_list_distinct [OF distinct_positions, of g "(x, y)"]
  by (simp add: set_positions)

subsection \<open>Claim C3: the sweep reads the source only and writes each cell once\<close>

text \<open>
  C3. Two runs of \<^const>\<open>next_generation\<close> on the same source, whatever their destinations
  held before, return the same grid, and that grid is a function of the cells the source
  held at the start: cell by cell the rule applied to the source. In the record of the
  accesses of either run every access is a read of the source or a write of the
  destination, so the destination is never read and the source never written; and every
  position of the grid is written exactly once, no position off the grid at all. The run
  returns the destination and nothing else.
\<close>

theorem next_generation_reads_source_writes_once:
  assumes "grid_ok inp" and "grid_ok out1" and "grid_ok out2"
    and "width inp = width out1" and "height inp = height out1"
    and "width inp = width out2" and "height inp = height out2"
  shows "\<exists>out' accesses1 accesses2.
           next_generation_traced inp out1 = Inr (out', accesses1) \<and>
           next_generation_traced inp out2 = Inr (out', accesses2) \<and>
           next_generation inp out1 = Inr out' \<and>
           next_generation inp out2 = Inr out' \<and>
           out' = generation inp \<and>
           (\<forall>x y. in_bounds inp x y \<longrightarrow> get_cell out' x y = Inr (life_rule inp x y)) \<and>
           list_all (\<lambda>a. source_read a \<or> destination_write a) accesses1 \<and>
           list_all (\<lambda>a. source_read a \<or> destination_write a) accesses2 \<and>
           (\<forall>x y. count_list (writes accesses1) (x, y) = (if in_bounds out1 x y then 1 else 0)) \<and>
           (\<forall>x y. count_list (writes accesses2) (x, y) = (if in_bounds out2 x y then 1 else 0))"
proof -
  from next_generation_traced_result [OF assms(1,2,4,5)] obtain accesses1 where
    r1: "next_generation_traced inp out1 = Inr (generation inp, accesses1)" and
    a1: "list_all (\<lambda>a. source_read a \<or> destination_write a) accesses1" and
    w1: "writes accesses1 = positions inp"
    by blast
  from next_generation_traced_result [OF assms(1,3,6,7)] obtain accesses2 where
    r2: "next_generation_traced inp out2 = Inr (generation inp, accesses2)" and
    a2: "list_all (\<lambda>a. source_read a \<or> destination_write a) accesses2" and
    w2: "writes accesses2 = positions inp"
    by blast
  have b1: "in_bounds out1 x y = in_bounds inp x y" for x y
    using assms(4,5) by (simp add: in_bounds_def)
  have b2: "in_bounds out2 x y = in_bounds inp x y" for x y
    using assms(6,7) by (simp add: in_bounds_def)
  show ?thesis
  proof (intro exI conjI)
    show "next_generation_traced inp out1 = Inr (generation inp, accesses1)" by (rule r1)
    show "next_generation_traced inp out2 = Inr (generation inp, accesses2)" by (rule r2)
    show "next_generation inp out1 = Inr (generation inp)"
      by (rule next_generation_generation [OF assms(1,2,4,5)])
    show "next_generation inp out2 = Inr (generation inp)"
      by (rule next_generation_generation [OF assms(1,3,6,7)])
    show "generation inp = generation inp" by (rule refl)
    show "\<forall>x y. in_bounds inp x y \<longrightarrow> get_cell (generation inp) x y = Inr (life_rule inp x y)"
      using get_cell_generation [OF assms(1)] by blast
    show "list_all (\<lambda>a. source_read a \<or> destination_write a) accesses1" by (rule a1)
    show "list_all (\<lambda>a. source_read a \<or> destination_write a) accesses2" by (rule a2)
    show "\<forall>x y. count_list (writes accesses1) (x, y) = (if in_bounds out1 x y then 1 else 0)"
      by (simp add: w1 b1 count_list_positions)
    show "\<forall>x y. count_list (writes accesses2) (x, y) = (if in_bounds out2 x y then 1 else 0)"
      by (simp add: w2 b2 count_list_positions)
  qed
qed

theorem next_generation_reads_source_writes_once_witness:
  "grid_ok \<lparr>width = 2, height = 2, data = [True, True, True, False]\<rparr> \<and> grid_ok \<lparr>width = 2, height = 2, data = [False, False, False, False]\<rparr> \<and> grid_ok \<lparr>width = 2, height = 2, data = [True, False, True, True]\<rparr> \<and>
   (\<exists>out' accesses1 accesses2.
      next_generation_traced \<lparr>width = 2, height = 2, data = [True, True, True, False]\<rparr> \<lparr>width = 2, height = 2, data = [False, False, False, False]\<rparr> = Inr (out', accesses1) \<and>
      next_generation_traced \<lparr>width = 2, height = 2, data = [True, True, True, False]\<rparr> \<lparr>width = 2, height = 2, data = [True, False, True, True]\<rparr> = Inr (out', accesses2) \<and>
      next_generation \<lparr>width = 2, height = 2, data = [True, True, True, False]\<rparr> \<lparr>width = 2, height = 2, data = [False, False, False, False]\<rparr> = Inr out' \<and>
      next_generation \<lparr>width = 2, height = 2, data = [True, True, True, False]\<rparr> \<lparr>width = 2, height = 2, data = [True, False, True, True]\<rparr> = Inr out' \<and>
      get_cell out' 1 1 = Inr True \<and>
      list_all (\<lambda>a. source_read a \<or> destination_write a) accesses1 \<and>
      list_all (\<lambda>a. source_read a \<or> destination_write a) accesses2 \<and>
      count_list (writes accesses1) (1, 1) = 1 \<and> count_list (writes accesses2) (0, 0) = 1 \<and>
      count_list (writes accesses1) (2, 0) = 0)"
proof -
  have ok: "grid_ok \<lparr>width = 2, height = 2, data = [True, True, True, False]\<rparr>" "grid_ok \<lparr>width = 2, height = 2, data = [False, False, False, False]\<rparr>" "grid_ok \<lparr>width = 2, height = 2, data = [True, False, True, True]\<rparr>"
    by (simp_all add: grid_ok_def INT_MAX_def)
  have rule: "life_rule \<lparr>width = 2, height = 2, data = [True, True, True, False]\<rparr> 1 1"
    by (simp add: life_rule_def neighbour_count_def around_def alive_def in_bounds_def offset_def)
  from next_generation_reads_source_writes_once [of "\<lparr>width = 2, height = 2, data = [True, True, True, False]\<rparr>" "\<lparr>width = 2, height = 2, data = [False, False, False, False]\<rparr>" "\<lparr>width = 2, height = 2, data = [True, False, True, True]\<rparr>"] ok
  obtain out' accesses1 accesses2 where
    "next_generation_traced \<lparr>width = 2, height = 2, data = [True, True, True, False]\<rparr> \<lparr>width = 2, height = 2, data = [False, False, False, False]\<rparr> = Inr (out', accesses1)"
    "next_generation_traced \<lparr>width = 2, height = 2, data = [True, True, True, False]\<rparr> \<lparr>width = 2, height = 2, data = [True, False, True, True]\<rparr> = Inr (out', accesses2)"
    "next_generation \<lparr>width = 2, height = 2, data = [True, True, True, False]\<rparr> \<lparr>width = 2, height = 2, data = [False, False, False, False]\<rparr> = Inr out'"
    "next_generation \<lparr>width = 2, height = 2, data = [True, True, True, False]\<rparr> \<lparr>width = 2, height = 2, data = [True, False, True, True]\<rparr> = Inr out'"
    "\<forall>x y. in_bounds \<lparr>width = 2, height = 2, data = [True, True, True, False]\<rparr> x y \<longrightarrow> get_cell out' x y = Inr (life_rule \<lparr>width = 2, height = 2, data = [True, True, True, False]\<rparr> x y)"
    "list_all (\<lambda>a. source_read a \<or> destination_write a) accesses1"
    "list_all (\<lambda>a. source_read a \<or> destination_write a) accesses2"
    "\<forall>x y. count_list (writes accesses1) (x, y) = (if in_bounds \<lparr>width = 2, height = 2, data = [False, False, False, False]\<rparr> x y then 1 else 0)"
    "\<forall>x y. count_list (writes accesses2) (x, y) = (if in_bounds \<lparr>width = 2, height = 2, data = [True, False, True, True]\<rparr> x y then 1 else 0)"
    by auto
  with ok rule show ?thesis
    by (intro conjI exI [of _ out'] exI [of _ accesses1] exI [of _ accesses2])
       (simp_all add: in_bounds_def)
qed

section \<open>A single cell and the blinker\<close>

lemma single_cell_rule:
  assumes "\<forall>x y. alive g x y = (x = 0 \<and> y = 0)"
  shows "\<not> life_rule g x y" and "neighbour_count g 0 0 = 0"
proof -
  show "neighbour_count g 0 0 = 0"
    using assms by (simp add: neighbour_count_def around_def)
  consider "x \<le> - 2" | "x = - 1" | "x = 0" | "x = 1" | "2 \<le> x" by linarith
  then show "\<not> life_rule g x y"
    using assms by cases (simp_all add: life_rule_def neighbour_count_def around_def)
qed

subsection \<open>Claim C2: the edges do not wrap\<close>

text \<open>
  C2. On every grid a position off the grid is never counted as a neighbour: for every
  cell on the grid, the count that \<^const>\<open>next_generation\<close> computes is the number of the
  eight positions around it that are on the grid and hold \<^verbatim>\<open>true\<close>, and the cell it
  writes is the rule applied to that count. In particular, when the cell at \<open>(0, 0)\<close> is
  the only alive cell, its count is 0 and after one application every cell is dead.
\<close>

theorem edges_do_not_wrap:
  assumes "grid_ok inp" and "grid_ok out"
    and "width inp = width out" and "height inp = height out"
  shows "(\<forall>x y. in_bounds inp x y \<longrightarrow>
            (\<exists>n out'.
               neighbours inp x y = Inr n \<and>
               n = int (length (filter (\<lambda>(dx, dy). in_bounds inp (x + dx) (y + dy) \<and>
                                          data inp ! nat (offset inp (x + dx) (y + dy))) around)) \<and>
               next_generation inp out = Inr out' \<and>
               get_cell out' x y =
                 Inr (if data inp ! nat (offset inp x y) then n = 2 \<or> n = 3 else n = 3))) \<and>
         ((\<forall>x y. alive inp x y = (x = 0 \<and> y = 0)) \<longrightarrow>
            neighbours inp 0 0 = Inr 0 \<and>
            (\<exists>out'. next_generation inp out = Inr out' \<and>
                     width out' = width inp \<and> height out' = height inp \<and>
                     (\<forall>x y. in_bounds inp x y \<longrightarrow> get_cell out' x y = Inr False)))"
proof (intro conjI allI impI)
  fix x y
  assume inb: "in_bounds inp x y"
  let ?n = "int (neighbour_count inp x y)"
  have cnt: "neighbour_count inp x y =
      length (filter (\<lambda>(dx, dy). in_bounds inp (x + dx) (y + dy) \<and>
                        data inp ! nat (offset inp (x + dx) (y + dy))) around)"
    by (simp add: neighbour_count_def alive_def)
  have cell: "alive inp x y = data inp ! nat (offset inp x y)"
    using inb by (simp add: alive_def)
  have "get_cell (generation inp) x y =
          Inr (if data inp ! nat (offset inp x y) then ?n = 2 \<or> ?n = 3 else ?n = 3)"
    using get_cell_generation [OF assms(1) inb] by (simp add: life_rule_def cell)
  then show "\<exists>n out'.
               neighbours inp x y = Inr n \<and>
               n = int (length (filter (\<lambda>(dx, dy). in_bounds inp (x + dx) (y + dy) \<and>
                                          data inp ! nat (offset inp (x + dx) (y + dy))) around)) \<and>
               next_generation inp out = Inr out' \<and>
               get_cell out' x y =
                 Inr (if data inp ! nat (offset inp x y) then n = 2 \<or> n = 3 else n = 3)"
    using neighbours_count [OF assms(1) inb] next_generation_generation [OF assms] cnt
    by (intro exI [of _ ?n] exI [of _ "generation inp"]) simp
next
  assume single: "\<forall>x y. alive inp x y = (x = 0 \<and> y = 0)"
  then have "alive inp 0 0" by simp
  then have inb: "in_bounds inp 0 0" by (simp add: alive_def)
  show "neighbours inp 0 0 = Inr 0"
    using neighbours_count [OF assms(1) inb] single_cell_rule(2) [OF single] by simp
  have "\<forall>x y. in_bounds inp x y \<longrightarrow> get_cell (generation inp) x y = Inr False"
    using get_cell_generation [OF assms(1)] single_cell_rule(1) [OF single] by simp
  then show "\<exists>out'. next_generation inp out = Inr out' \<and>
                     width out' = width inp \<and> height out' = height inp \<and>
                     (\<forall>x y. in_bounds inp x y \<longrightarrow> get_cell out' x y = Inr False)"
    using next_generation_generation [OF assms] by (simp add: dims_generation)
qed

theorem edges_do_not_wrap_witness:
  "grid_ok \<lparr>width = 3, height = 1, data = [False, False, True]\<rparr> \<and> grid_ok \<lparr>width = 3, height = 1, data = [True, True, True]\<rparr> \<and> in_bounds \<lparr>width = 3, height = 1, data = [False, False, True]\<rparr> 0 0 \<and>
   neighbours \<lparr>width = 3, height = 1, data = [False, False, True]\<rparr> 0 0 = Inr 0 \<and>
   (\<exists>out'. next_generation \<lparr>width = 3, height = 1, data = [False, False, True]\<rparr> \<lparr>width = 3, height = 1, data = [True, True, True]\<rparr> = Inr out' \<and> get_cell out' 0 0 = Inr False) \<and>
   grid_ok \<lparr>width = 2, height = 2, data = [True, False, False, False]\<rparr> \<and> grid_ok \<lparr>width = 2, height = 2, data = [True, True, True, True]\<rparr> \<and>
   (\<forall>x y. alive \<lparr>width = 2, height = 2, data = [True, False, False, False]\<rparr> x y = (x = 0 \<and> y = 0)) \<and>
   neighbours \<lparr>width = 2, height = 2, data = [True, False, False, False]\<rparr> 0 0 = Inr 0 \<and>
   (\<exists>out'. next_generation \<lparr>width = 2, height = 2, data = [True, False, False, False]\<rparr> \<lparr>width = 2, height = 2, data = [True, True, True, True]\<rparr> = Inr out' \<and>
            get_cell out' 0 0 = Inr False \<and> get_cell out' 1 0 = Inr False \<and>
            get_cell out' 0 1 = Inr False \<and> get_cell out' 1 1 = Inr False)"
proof -
  have ok3: "grid_ok \<lparr>width = 3, height = 1, data = [False, False, True]\<rparr>" "grid_ok \<lparr>width = 3, height = 1, data = [True, True, True]\<rparr>" and ok2: "grid_ok \<lparr>width = 2, height = 2, data = [True, False, False, False]\<rparr>" "grid_ok \<lparr>width = 2, height = 2, data = [True, True, True, True]\<rparr>"
    by (simp_all add: grid_ok_def INT_MAX_def)
  have inb: "in_bounds \<lparr>width = 3, height = 1, data = [False, False, True]\<rparr> 0 0" by (simp add: in_bounds_def)
  have single: "\<forall>x y. alive \<lparr>width = 2, height = 2, data = [True, False, False, False]\<rparr> x y = (x = 0 \<and> y = 0)"
  proof (intro allI)
    fix x y :: int
    consider "x < 0 \<or> 2 \<le> x \<or> y < 0 \<or> 2 \<le> y" | "x = 0" "y = 0" | "x = 1" "y = 0" | "x = 0" "y = 1" | "x = 1" "y = 1"
      by linarith
    then show "alive \<lparr>width = 2, height = 2, data = [True, False, False, False]\<rparr> x y = (x = 0 \<and> y = 0)"
      by cases (auto simp: alive_def in_bounds_def offset_def)
  qed
  have dims3: "width \<lparr>width = 3, height = 1, data = [False, False, True]\<rparr> = width \<lparr>width = 3, height = 1, data = [True, True, True]\<rparr>" "height \<lparr>width = 3, height = 1, data = [False, False, True]\<rparr> = height \<lparr>width = 3, height = 1, data = [True, True, True]\<rparr>"
    by simp_all
  from edges_do_not_wrap [OF ok3 dims3, THEN conjunct1, rule_format, OF inb]
  obtain n out' where
    n: "neighbours \<lparr>width = 3, height = 1, data = [False, False, True]\<rparr> 0 0 = Inr n"
       "n = int (length (filter (\<lambda>(dx, dy). in_bounds \<lparr>width = 3, height = 1, data = [False, False, True]\<rparr> (0 + dx) (0 + dy) \<and>
                                   data \<lparr>width = 3, height = 1, data = [False, False, True]\<rparr> ! nat (offset \<lparr>width = 3, height = 1, data = [False, False, True]\<rparr> (0 + dx) (0 + dy))) around))" and
    run: "next_generation \<lparr>width = 3, height = 1, data = [False, False, True]\<rparr> \<lparr>width = 3, height = 1, data = [True, True, True]\<rparr> = Inr out'"
       "get_cell out' 0 0 = Inr (if data \<lparr>width = 3, height = 1, data = [False, False, True]\<rparr> ! nat (offset \<lparr>width = 3, height = 1, data = [False, False, True]\<rparr> 0 0) then n = 2 \<or> n = 3 else n = 3)"
    by blast
  from n(2) have n0: "n = 0" by (simp add: around_def in_bounds_def offset_def)
  from run(2) n0 have "get_cell out' 0 0 = Inr False" by (simp add: offset_def)
  with n(1) n0 run(1) have left: "neighbours \<lparr>width = 3, height = 1, data = [False, False, True]\<rparr> 0 0 = Inr 0 \<and>
      (\<exists>out'. next_generation \<lparr>width = 3, height = 1, data = [False, False, True]\<rparr> \<lparr>width = 3, height = 1, data = [True, True, True]\<rparr> = Inr out' \<and> get_cell out' 0 0 = Inr False)"
    by blast
  from edges_do_not_wrap [of "\<lparr>width = 2, height = 2, data = [True, False, False, False]\<rparr>" "\<lparr>width = 2, height = 2, data = [True, True, True, True]\<rparr>"] ok2 single
  have right: "neighbours \<lparr>width = 2, height = 2, data = [True, False, False, False]\<rparr> 0 0 = Inr 0 \<and>
      (\<exists>out'. next_generation \<lparr>width = 2, height = 2, data = [True, False, False, False]\<rparr> \<lparr>width = 2, height = 2, data = [True, True, True, True]\<rparr> = Inr out' \<and>
            get_cell out' 0 0 = Inr False \<and> get_cell out' 1 0 = Inr False \<and>
            get_cell out' 0 1 = Inr False \<and> get_cell out' 1 1 = Inr False)"
    by (auto simp: in_bounds_def)
  from ok3 ok2 inb single left right show ?thesis by blast
qed

lemma blinker_rule:
  assumes "\<forall>x y. alive g x y = (y = 2 \<and> (x = 1 \<or> x = 2 \<or> x = 3))"
  shows "life_rule g x y = (x = 2 \<and> (y = 1 \<or> y = 2 \<or> y = 3))"
proof -
  consider "y \<le> 0" | "y = 1" | "y = 2" | "y = 3" | "4 \<le> y" by linarith
  then show ?thesis
  proof cases
    case 1
    then show ?thesis using assms by (simp add: life_rule_def neighbour_count_def around_def)
  next
    case 2
    consider "x \<le> 0" | "x = 1" | "x = 2" | "x = 3" | "4 \<le> x" by linarith
    then show ?thesis
      using 2 assms by cases (simp_all add: life_rule_def neighbour_count_def around_def)
  next
    case 3
    consider "x \<le> 0" | "x = 1" | "x = 2" | "x = 3" | "4 \<le> x" by linarith
    then show ?thesis
      using 3 assms by cases (simp_all add: life_rule_def neighbour_count_def around_def)
  next
    case 4
    consider "x \<le> 0" | "x = 1" | "x = 2" | "x = 3" | "4 \<le> x" by linarith
    then show ?thesis
      using 4 assms by cases (simp_all add: life_rule_def neighbour_count_def around_def)
  next
    case 5
    then show ?thesis using assms by (simp add: life_rule_def neighbour_count_def around_def)
  qed
qed


lemma blinker_rule_back:
  assumes "\<forall>x y. alive g x y = (x = 2 \<and> (y = 1 \<or> y = 2 \<or> y = 3))"
  shows "life_rule g x y = (y = 2 \<and> (x = 1 \<or> x = 2 \<or> x = 3))"
proof -
  consider "x \<le> 0" | "x = 1" | "x = 2" | "x = 3" | "4 \<le> x" by linarith
  then show ?thesis
  proof cases
    case 1
    then show ?thesis using assms by (simp add: life_rule_def neighbour_count_def around_def)
  next
    case 2
    consider "y \<le> 0" | "y = 1" | "y = 2" | "y = 3" | "4 \<le> y" by linarith
    then show ?thesis
      using 2 assms by cases (simp_all add: life_rule_def neighbour_count_def around_def)
  next
    case 3
    consider "y \<le> 0" | "y = 1" | "y = 2" | "y = 3" | "4 \<le> y" by linarith
    then show ?thesis
      using 3 assms by cases (simp_all add: life_rule_def neighbour_count_def around_def)
  next
    case 4
    consider "y \<le> 0" | "y = 1" | "y = 2" | "y = 3" | "4 \<le> y" by linarith
    then show ?thesis
      using 4 assms by cases (simp_all add: life_rule_def neighbour_count_def around_def)
  next
    case 5
    then show ?thesis using assms by (simp add: life_rule_def neighbour_count_def around_def)
  qed
qed

lemma grid_eqI:
  assumes ok: "grid_ok g" "grid_ok g'"
    and dims: "width g = width g'" "height g = height g'"
    and cells: "\<forall>x y. alive g x y = alive g' x y"
  shows "g = g'"
proof -
  have len: "length (data g) = length (data g')"
    using ok dims by (simp add: grid_ok_def)
  have "data g ! i = data g' ! i" if i: "i < length (data g)" for i
  proof -
    from i ok(1) have lt: "int i < width g * height g" and n: "0 < width g * height g"
      by (simp_all add: grid_ok_def)
    from ok(1) have nn: "0 \<le> width g" "0 \<le> height g" by (simp_all add: grid_ok_def)
    with n have w: "0 < width g" by (cases "width g = 0") simp_all
    define x where "x = int i mod width g"
    define y where "y = int i div width g"
    have x: "0 \<le> x" "x < width g" using w by (simp_all add: x_def)
    have y0: "0 \<le> y" using w by (simp add: y_def pos_imp_zdiv_nonneg_iff)
    have i_eq: "int i = y * width g + x" by (simp add: x_def y_def)
    have y1: "y < height g"
    proof (rule ccontr)
      assume "\<not> y < height g"
      then have "height g * width g \<le> y * width g"
        using w by (intro mult_right_mono) simp_all
      with i_eq x lt show False by (simp add: mult.commute)
    qed
    have off: "offset g x y = int i" "offset g' x y = int i"
      using dims by (simp_all add: offset_def x_def y_def)
    have "in_bounds g x y" "in_bounds g' x y"
      using x y0 y1 dims by (simp_all add: in_bounds_def)
    with cells [rule_format, of x y] off show ?thesis by (simp add: alive_def)
  qed
  with len have "data g = data g'" by (simp add: list_eq_iff_nth_eq)
  with dims show ?thesis by simp
qed

subsection \<open>Claim C4: the blinker\<close>

text \<open>
  C4. On a grid at least 5 wide and 5 high whose alive cells are exactly \<open>(1, 2)\<close>,
  \<open>(2, 2)\<close> and \<open>(3, 2)\<close>, one application of \<^const>\<open>next_generation\<close> returns the grid
  whose alive cells are exactly \<open>(2, 1)\<close>, \<open>(2, 2)\<close> and \<open>(2, 3)\<close>, and a second
  application, from that grid, returns the first grid again.
\<close>

theorem blinker_has_period_two:
  assumes "grid_ok inp" and "grid_ok out" and "grid_ok out2"
    and "width inp = width out" and "height inp = height out"
    and "width inp = width out2" and "height inp = height out2"
    and "5 \<le> width inp" and "5 \<le> height inp"
    and "\<forall>x y. alive inp x y = (y = 2 \<and> (x = 1 \<or> x = 2 \<or> x = 3))"
  shows "\<exists>vertical.
           next_generation inp out = Inr vertical \<and>
           (\<forall>x y. alive vertical x y = (x = 2 \<and> (y = 1 \<or> y = 2 \<or> y = 3))) \<and>
           next_generation vertical out2 = Inr inp"
proof -
  let ?v = "generation inp"
  have okv: "grid_ok ?v" using assms(1) by (rule grid_ok_generation)
  have v: "\<forall>x y. alive ?v x y = (x = 2 \<and> (y = 1 \<or> y = 2 \<or> y = 3))"
    using assms(8,9) by (auto simp: alive_generation [OF assms(1)] blinker_rule [OF assms(10)] in_bounds_def)
  have "\<forall>x y. alive (generation ?v) x y = alive inp x y"
    using assms(8,9,10)
    by (auto simp: alive_generation [OF okv] blinker_rule_back [OF v] in_bounds_def dims_generation)
  then have again: "generation ?v = inp"
    using okv assms(1) by (intro grid_eqI grid_ok_generation) (simp_all add: dims_generation)
  have "next_generation ?v out2 = Inr (generation ?v)"
    using okv assms(3,6,7) by (intro next_generation_generation) (simp_all add: dims_generation)
  with again v next_generation_generation [OF assms(1,2,4,5)] show ?thesis by simp
qed


theorem blinker_has_period_two_witness:
  "grid_ok \<lparr>width = 5, height = 5, data = [False, False, False, False, False, False, False, False, False, False, False, True, True, True, False, False, False, False, False, False, False, False, False, False, False]\<rparr> \<and> grid_ok \<lparr>width = 5, height = 5, data = replicate 25 True\<rparr> \<and>
   (\<forall>x y. alive \<lparr>width = 5, height = 5, data = [False, False, False, False, False, False, False, False, False, False, False, True, True, True, False, False, False, False, False, False, False, False, False, False, False]\<rparr> x y = (y = 2 \<and> (x = 1 \<or> x = 2 \<or> x = 3))) \<and>
   (\<exists>vertical.
      next_generation \<lparr>width = 5, height = 5, data = [False, False, False, False, False, False, False, False, False, False, False, True, True, True, False, False, False, False, False, False, False, False, False, False, False]\<rparr> \<lparr>width = 5, height = 5, data = replicate 25 True\<rparr> = Inr vertical \<and>
      alive vertical 2 1 \<and> alive vertical 2 2 \<and> alive vertical 2 3 \<and>
      \<not> alive vertical 1 2 \<and> \<not> alive vertical 3 2 \<and>
      next_generation vertical \<lparr>width = 5, height = 5, data = [False, False, False, False, False, False, False, False, False, False, False, True, True, True, False, False, False, False, False, False, False, False, False, False, False]\<rparr> = Inr \<lparr>width = 5, height = 5, data = [False, False, False, False, False, False, False, False, False, False, False, True, True, True, False, False, False, False, False, False, False, False, False, False, False]\<rparr>)"
proof -
  let ?G = "\<lparr>width = 5, height = 5, data = [False, False, False, False, False, False, False, False, False, False, False, True, True, True, False, False, False, False, False, False, False, False, False, False, False]\<rparr>"
  have horizontal: "\<forall>x y. alive ?G x y = (y = 2 \<and> (x = 1 \<or> x = 2 \<or> x = 3))"
  proof (intro allI)
    fix x y :: int
    show "alive ?G x y = (y = 2 \<and> (x = 1 \<or> x = 2 \<or> x = 3))"
    proof (cases "in_bounds ?G x y")
      case False
      then show ?thesis by (auto simp: alive_def in_bounds_def)
    next
      case True
      then have "x = 0 \<or> x = 1 \<or> x = 2 \<or> x = 3 \<or> x = 4" "y = 0 \<or> y = 1 \<or> y = 2 \<or> y = 3 \<or> y = 4"
        by (auto simp: in_bounds_def)
      then show ?thesis
        by (elim disjE) (simp_all add: alive_def in_bounds_def offset_def)
    qed
  qed
  have ok: "grid_ok ?G" "grid_ok \<lparr>width = 5, height = 5, data = replicate 25 True\<rparr>"
    by (simp_all add: grid_ok_def INT_MAX_def)
  from blinker_has_period_two [of ?G "\<lparr>width = 5, height = 5, data = replicate 25 True\<rparr>" ?G] ok horizontal
  show ?thesis by auto
qed

section \<open>Accesses stay on the grid\<close>

lemma set_cell_in_bounds:
  assumes "grid_ok g" and "in_bounds g x y"
  shows "set_cell g x y v = Inr (g\<lparr>data := (data g)[nat (offset g x y) := v]\<rparr>)"
  using assms offset_in_range [OF assms] by (simp add: set_cell_def)

subsection \<open>Claim C10: no access of the sweep leaves the grid\<close>

text \<open>
  C10. For well-formed grids of equal dimensions, both positive, no access made by
  \<^const>\<open>next_generation\<close> is off the grid. An access off the grid is the failure
  \<open>AssertionFailed Bounds\<close> of the accessor, or \<open>OutOfRange\<close> behind it, and a failure
  ends the run: the run returns a grid, so there was none. Cell by cell: for a position
  on the grid the read of the source, each of the eight guarded reads and the write of
  the destination succeed.
\<close>

theorem next_generation_stays_in_bounds:
  assumes "grid_ok inp" and "grid_ok out"
    and "width inp = width out" and "height inp = height out"
    and "0 < width inp" and "0 < height inp"
  shows "(\<exists>out'. next_generation inp out = Inr out') \<and>
         (\<forall>x y. in_bounds inp x y \<longrightarrow>
            (\<exists>c. get_cell inp x y = Inr c) \<and>
            (\<exists>n. neighbours inp x y = Inr n \<and> 0 \<le> n \<and> n \<le> 8) \<and>
            (\<forall>v. \<exists>out'. set_cell out x y v = Inr out'))"
proof -
  have "\<exists>out'. next_generation inp out = Inr out'"
    using next_generation_generation [OF assms(1-4)] by simp
  moreover have "\<exists>c. get_cell inp x y = Inr c" if "in_bounds inp x y" for x y
    using get_cell_alive [OF assms(1) that] by simp
  moreover have "\<exists>n. neighbours inp x y = Inr n \<and> 0 \<le> n \<and> n \<le> 8" if "in_bounds inp x y" for x y
  proof -
    have "neighbour_count inp x y \<le> length around"
      unfolding neighbour_count_def by (rule length_filter_le)
    then have "int (neighbour_count inp x y) \<le> 8" by (simp add: around_def)
    then show ?thesis using neighbours_count [OF assms(1) that] by simp
  qed
  moreover have "\<exists>out'. set_cell out x y v = Inr out'" if "in_bounds inp x y" for x y v
  proof -
    have "in_bounds out x y" using that assms(3,4) by (simp add: in_bounds_def)
    then show ?thesis using set_cell_in_bounds [OF assms(2)] by simp
  qed
  ultimately show ?thesis by blast
qed

theorem next_generation_stays_in_bounds_witness:
  "grid_ok \<lparr>width = 2, height = 1, data = [True, False]\<rparr> \<and>
   grid_ok \<lparr>width = 2, height = 1, data = [True, True]\<rparr> \<and>
   in_bounds \<lparr>width = 2, height = 1, data = [True, False]\<rparr> 1 0 \<and>
   (\<exists>out'. next_generation \<lparr>width = 2, height = 1, data = [True, False]\<rparr>
              \<lparr>width = 2, height = 1, data = [True, True]\<rparr> = Inr out') \<and>
   (\<exists>c. get_cell \<lparr>width = 2, height = 1, data = [True, False]\<rparr> 1 0 = Inr c) \<and>
   (\<exists>n. neighbours \<lparr>width = 2, height = 1, data = [True, False]\<rparr> 1 0 = Inr n \<and> 0 \<le> n \<and> n \<le> 8) \<and>
   (\<exists>out'. set_cell \<lparr>width = 2, height = 1, data = [True, True]\<rparr> 1 0 False = Inr out')"
  using next_generation_stays_in_bounds
    [of "\<lparr>width = 2, height = 1, data = [True, False]\<rparr>"
        "\<lparr>width = 2, height = 1, data = [True, True]\<rparr>"]
  by (simp add: grid_ok_def INT_MAX_def in_bounds_def)

section \<open>Properties of the double buffer\<close>

lemma set_cell_dims:
  "set_cell g x y v = Inr g' \<Longrightarrow> width g' = width g \<and> height g' = height g"
  by (auto simp: set_cell_def split: if_splits)

lemma make_grid_dims:
  "make_grid w h mem = Inr g \<Longrightarrow> width g = w \<and> height g = h"
  by (auto simp: make_grid_def split: if_splits)

lemma reachable_same_dims:
  "reachable d \<Longrightarrow> width (grid_a d) = width (grid_b d) \<and> height (grid_a d) = height (grid_b d)"
proof (induction rule: reachable.induct)
  case (constructed w h mem_a mem_b d)
  then show ?case
    by (auto simp: make_double_buffered_grid_def split: sum.splits dest!: make_grid_dims)
next
  case (swapped d)
  then show ?case by (simp add: swap_def)
next
  case (assigned d x y v g)
  from set_cell_dims [OF assigned.hyps(2)] assigned.IH show ?case
    by (auto simp: put_back_def back_grid_def split: if_splits)
qed

subsection \<open>Claim C5: swapping the buffers\<close>

text \<open>
  C5. \<^const>\<open>swap\<close> flips the flag and leaves both grids as they are. After the grid behind
  \<^verbatim>\<open>back()\<close> has been filled and the buffers swapped, \<^const>\<open>front\<close> is the grid that was
  written and \<^const>\<open>back_grid\<close> is the grid that was the front. Front and back are always
  the two different members \<^verbatim>\<open>a\<close> and \<^verbatim>\<open>b\<close>, so that writing the back leaves the front
  as it is, and in every double buffer a program can hold they have the same dimensions.
\<close>

theorem swap_exchanges_roles_only:
  assumes "reachable d"
  shows "grid_a (swap d) = grid_a d \<and> grid_b (swap d) = grid_b d \<and>
         first (swap d) = (\<not> first d) \<and>
         front (swap d) = back_grid d \<and> back_grid (swap d) = front d \<and>
         front (swap (put_back d g)) = g \<and> back_grid (swap (put_back d g)) = front d \<and>
         front (put_back d g) = front d \<and> back_grid (put_back d g) = g \<and>
         (front d = grid_a d \<and> back_grid d = grid_b d \<or> front d = grid_b d \<and> back_grid d = grid_a d) \<and>
         width (front d) = width (back_grid d) \<and> height (front d) = height (back_grid d)"
  using reachable_same_dims [OF assms]
  by (simp add: swap_def front_def back_grid_def put_back_def)

theorem swap_exchanges_roles_only_witness:
  "reachable \<lparr>first = True,
              grid_a = \<lparr>width = 2, height = 1, data = [True, False]\<rparr>,
              grid_b = \<lparr>width = 2, height = 1, data = [False, False]\<rparr>\<rparr> \<and>
   front (swap (put_back \<lparr>first = True,
              grid_a = \<lparr>width = 2, height = 1, data = [True, False]\<rparr>,
              grid_b = \<lparr>width = 2, height = 1, data = [False, False]\<rparr>\<rparr>
              \<lparr>width = 2, height = 1, data = [False, True]\<rparr>))
     = \<lparr>width = 2, height = 1, data = [False, True]\<rparr> \<and>
   back_grid (swap (put_back \<lparr>first = True,
              grid_a = \<lparr>width = 2, height = 1, data = [True, False]\<rparr>,
              grid_b = \<lparr>width = 2, height = 1, data = [False, False]\<rparr>\<rparr>
              \<lparr>width = 2, height = 1, data = [False, True]\<rparr>))
     = \<lparr>width = 2, height = 1, data = [True, False]\<rparr>"
proof -
  have "make_double_buffered_grid 2 1 (\<lambda>i. i = 0) (\<lambda>i. False)
        = Inr \<lparr>first = True,
              grid_a = \<lparr>width = 2, height = 1, data = [True, False]\<rparr>,
              grid_b = \<lparr>width = 2, height = 1, data = [False, False]\<rparr>\<rparr>"
    by (simp add: make_double_buffered_grid_def make_grid_def INT_MAX_def upt_conv_Cons)
  then have r: "reachable \<lparr>first = True,
              grid_a = \<lparr>width = 2, height = 1, data = [True, False]\<rparr>,
              grid_b = \<lparr>width = 2, height = 1, data = [False, False]\<rparr>\<rparr>"
    by (rule reachable.constructed)
  from swap_exchanges_roles_only [OF r, of "\<lparr>width = 2, height = 1, data = [False, True]\<rparr>"] r
  show ?thesis by (simp add: front_def)
qed

section \<open>Properties of the game\<close>

lemma buffer_ok_front_back:
  assumes "buffer_ok d"
  shows "grid_ok (front d)" and "grid_ok (back_grid d)"
    and "width (front d) = width (back_grid d)" and "height (front d) = height (back_grid d)"
  using assms by (simp_all add: buffer_ok_def front_def back_grid_def)

subsection \<open>Claim C6: one tick is one generation\<close>

text \<open>
  C6. \<^const>\<open>tick\<close> runs \<^const>\<open>next_generation\<close> from the front grid into the back grid and
  swaps. On a game whose two grids are well-formed and of equal dimensions it returns a
  game whose front grid is the next generation of the old front grid, cell by cell what
  the rules give, and whose back grid is the old front grid, unchanged; the flag has
  flipped once, and the game has no other state.
\<close>

theorem tick_advances_one_generation:
  assumes "buffer_ok (buffer gm)"
  shows "\<exists>gm'. tick gm = Inr gm' \<and>
           front (buffer gm') = generation (front (buffer gm)) \<and>
           back_grid (buffer gm') = front (buffer gm) \<and>
           first (buffer gm') = (\<not> first (buffer gm)) \<and>
           buffer_ok (buffer gm') \<and>
           (\<forall>x y. in_bounds (front (buffer gm)) x y \<longrightarrow>
              get_cell (front (buffer gm')) x y = Inr (life_rule (front (buffer gm)) x y))"
proof -
  let ?d = "buffer gm"
  let ?gm' = "gm\<lparr>buffer := swap (put_back ?d (generation (front ?d)))\<rparr>"
  have ok: "grid_ok (front ?d)" using assms by (rule buffer_ok_front_back)
  have run: "next_generation (front ?d) (back_grid ?d) = Inr (generation (front ?d))"
    using buffer_ok_front_back [OF assms] by (rule next_generation_generation)
  then have "tick gm = Inr ?gm'" by (simp add: tick_def)
  moreover have fr: "front (buffer ?gm') = generation (front ?d)"
    by (simp add: front_def swap_def put_back_def)
  moreover have "back_grid (buffer ?gm') = front ?d"
    by (simp add: front_def back_grid_def swap_def put_back_def)
  moreover have "first (buffer ?gm') = (\<not> first ?d)"
    by (simp add: swap_def put_back_def)
  moreover have "buffer_ok (buffer ?gm')"
    using assms grid_ok_generation [OF ok]
    by (auto simp: buffer_ok_def swap_def put_back_def front_def dims_generation)
  moreover have "\<forall>x y. in_bounds (front ?d) x y \<longrightarrow>
      get_cell (front (buffer ?gm')) x y = Inr (life_rule (front ?d) x y)"
    unfolding fr using get_cell_generation [OF ok] by blast
  ultimately show ?thesis by blast
qed

theorem tick_advances_one_generation_witness:
  "buffer_ok \<lparr>first = False,
               grid_a = \<lparr>width = 3, height = 2, data = [False, False, False, True, False, True]\<rparr>,
               grid_b = \<lparr>width = 3, height = 2, data = [True, True, True, False, False, False]\<rparr>\<rparr> \<and>
   (\<exists>gm'. tick \<lparr>buffer = \<lparr>first = False,
               grid_a = \<lparr>width = 3, height = 2, data = [False, False, False, True, False, True]\<rparr>,
               grid_b = \<lparr>width = 3, height = 2, data = [True, True, True, False, False, False]\<rparr>\<rparr>\<rparr> = Inr gm' \<and>
      first (buffer gm') \<and>
      back_grid (buffer gm') = \<lparr>width = 3, height = 2, data = [True, True, True, False, False, False]\<rparr> \<and>
      get_cell (front (buffer gm')) 1 0 = Inr True \<and>
      get_cell (front (buffer gm')) 1 1 = Inr True \<and>
      get_cell (front (buffer gm')) 0 0 = Inr False)"
  using tick_advances_one_generation
    [of "\<lparr>buffer = \<lparr>first = False,
               grid_a = \<lparr>width = 3, height = 2, data = [False, False, False, True, False, True]\<rparr>,
               grid_b = \<lparr>width = 3, height = 2, data = [True, True, True, False, False, False]\<rparr>\<rparr>\<rparr>"]
  by (auto simp: buffer_ok_def grid_ok_def INT_MAX_def front_def in_bounds_def life_rule_def
        neighbour_count_def around_def alive_def offset_def)

section \<open>Properties of rendering\<close>

lemma cdiv_nonneg: "0 \<le> i \<Longrightarrow> 0 < j \<Longrightarrow> cdiv i j = i div j"
  by (simp add: cdiv_def)

lemma crem_nonneg: "0 \<le> i \<Longrightarrow> 0 < j \<Longrightarrow> crem i j = i mod j"
  by (simp add: crem_def cdiv_nonneg minus_div_mult_eq_mod)

lemma crem_2_iff: "crem h 2 = 0 \<longleftrightarrow> even h"
proof (cases "0 \<le> h")
  case True
  then show ?thesis by (simp add: crem_nonneg even_iff_mod_2_eq_zero)
next
  case False
  then have "crem h 2 = - ((- h) mod 2)"
    by (simp add: crem_def cdiv_def minus_div_mult_eq_mod [symmetric] algebra_simps)
  then have "crem h 2 = 0 \<longleftrightarrow> (- h) mod 2 = 0" by simp
  also have "\<dots> \<longleftrightarrow> even (- h)" by (simp only: even_iff_mod_2_eq_zero)
  finally show ?thesis by simp
qed

lemma render_cols_calls:
  assumes ok: "grid_ok g" and y: "0 \<le> y" "y + 1 < height g"
  shows "0 \<le> x \<Longrightarrow> x \<le> width g \<Longrightarrow>
         render_cols g y x calls
         = Inr (calls @ map (\<lambda>x'. Addstr (glyph (alive g x' y) (alive g x' (y + 1)))) [x..width g - 1])"
proof (induction "nat (width g - x)" arbitrary: x calls)
  case 0
  then have "x = width g" by simp
  then show ?case by (simp add: render_cols.simps)
next
  case (Suc n)
  then have x: "0 \<le> x" "x < width g" by simp_all
  have nx: "\<not> INT_MAX \<le> x" using x ok by (simp add: grid_ok_def)
  have t: "get_cell g x y = Inr (alive g x y)"
    using x y by (intro get_cell_alive [OF ok]) (simp add: in_bounds_def)
  have b: "get_cell g x (y + 1) = Inr (alive g x (y + 1))"
    using x y by (intro get_cell_alive [OF ok]) (simp add: in_bounds_def)
  have IH: "render_cols g y (x + 1) (calls @ [Addstr (glyph (alive g x y) (alive g x (y + 1)))])
            = Inr ((calls @ [Addstr (glyph (alive g x y) (alive g x (y + 1)))])
                   @ map (\<lambda>x'. Addstr (glyph (alive g x' y) (alive g x' (y + 1)))) [x + 1..width g - 1])"
    using Suc.hyps(2) x by (intro Suc.hyps(1)) simp_all
  show ?case
    using x nx by (subst render_cols.simps) (simp add: t b IH upto_rec1 [of x])
qed

lemma render_rows_calls:
  assumes ok: "grid_ok g" and ev: "even (height g)"
  shows "0 \<le> r \<Longrightarrow> r \<le> height g div 2 \<Longrightarrow>
         render_rows g (2 * r) calls
         = Inr (calls @ concat (map (\<lambda>r'. Move r' 0 #
                   map (\<lambda>x. Addstr (glyph (alive g x (2 * r')) (alive g x (2 * r' + 1)))) [0..width g - 1])
                 [r..height g div 2 - 1]))"
proof (induction "nat (height g div 2 - r)" arbitrary: r calls)
  case 0
  then have "r = height g div 2" by simp
  then have "2 * r = height g" using ev by simp
  then show ?case using 0 by (simp add: render_rows.simps)
next
  case (Suc n)
  then have r: "0 \<le> r" "r < height g div 2" by simp_all
  then have y: "0 \<le> 2 * r" "2 * r + 1 < height g" "2 * r \<noteq> height g" using ev by auto
  have ny: "\<not> INT_MAX - 2 < 2 * r" using y ok by (simp add: grid_ok_def)
  have w: "0 \<le> width g" using ok by (simp add: grid_ok_def)
  have mv: "cdiv (2 * r) 2 = r" using r by (simp add: cdiv_nonneg)
  have row: "render_cols g (2 * r) 0 (calls @ [Move r 0])
             = Inr ((calls @ [Move r 0]) @
                    map (\<lambda>x. Addstr (glyph (alive g x (2 * r)) (alive g x (2 * r + 1)))) [0..width g - 1])"
    using w by (intro render_cols_calls [OF ok y(1,2)]) simp_all
  have IH: "render_rows g (2 * (r + 1)) calls'
         = Inr (calls' @ concat (map (\<lambda>r'. Move r' 0 #
                   map (\<lambda>x. Addstr (glyph (alive g x (2 * r')) (alive g x (2 * r' + 1)))) [0..width g - 1])
                 [r + 1..height g div 2 - 1]))" for calls'
    using Suc.hyps(2) r by (intro Suc.hyps(1)) simp_all
  have nxt: "2 * r + 2 = 2 * (r + 1)" by simp
  show ?case
    using y(3) ny r
    by (subst render_rows.simps) (simp add: mv row nxt IH upto_rec1 [of r] del: distrib_left_numeral)
qed

subsection \<open>Claim C7: two rows of the grid in one row of characters\<close>

text \<open>
  C7. For a game whose front grid has an even height, \<^const>\<open>render\<close> draws one row of
  characters for each pair of rows \<open>2r\<close>, \<open>2r + 1\<close> of the grid, \<open>height / 2\<close> rows in all:
  it moves to the start of row \<open>r\<close> and writes one glyph for each of the \<open>width\<close> columns.
  The glyph depends on the two cells of the column only: a space when both are dead, the
  upper half block when only the top one is alive, the lower half block when only the
  bottom one is, the full block when both are; the four are different. It ends with a
  refresh. \<^const>\<open>render\<close> returns the calls it makes and no game: it changes no state.
\<close>

theorem render_packs_row_pairs:
  assumes "buffer_ok (buffer gm)" and "even (height (front (buffer gm)))"
  shows "render gm =
           Inr (concat (map (\<lambda>r. Move r 0 #
                    map (\<lambda>x. Addstr (glyph (alive (front (buffer gm)) x (2 * r))
                                             (alive (front (buffer gm)) x (2 * r + 1))))
                        [0..width (front (buffer gm)) - 1])
                  [0..height (front (buffer gm)) div 2 - 1]) @ [Refresh]) \<and>
         glyph False False = '' '' \<and> glyph True False = upper \<and>
         glyph False True = lower \<and> glyph True True = full \<and>
         distinct ['' '', upper, lower, full]"
proof -
  have ok: "grid_ok (front (buffer gm))" using assms(1) by (rule buffer_ok_front_back)
  then have h: "0 \<le> height (front (buffer gm)) div 2" by (simp add: grid_ok_def)
  have "render_rows (front (buffer gm)) (2 * 0) []
        = Inr ([] @ concat (map (\<lambda>r. Move r 0 #
                    map (\<lambda>x. Addstr (glyph (alive (front (buffer gm)) x (2 * r))
                                             (alive (front (buffer gm)) x (2 * r + 1))))
                        [0..width (front (buffer gm)) - 1])
                  [0..height (front (buffer gm)) div 2 - 1]))"
    using h by (intro render_rows_calls [OF ok assms(2)]) simp_all
  then show ?thesis
    using assms(2) by (simp add: render_def crem_2_iff glyph_def upper_def lower_def full_def)
qed


theorem render_packs_row_pairs_witness:
  "buffer_ok \<lparr>first = True,
               grid_a = \<lparr>width = 2, height = 2, data = [True, False, False, True]\<rparr>,
               grid_b = \<lparr>width = 2, height = 2, data = [False, False, False, False]\<rparr>\<rparr> \<and>
   render \<lparr>buffer = \<lparr>first = True,
               grid_a = \<lparr>width = 2, height = 2, data = [True, False, False, True]\<rparr>,
               grid_b = \<lparr>width = 2, height = 2, data = [False, False, False, False]\<rparr>\<rparr>\<rparr>
     = Inr [Move 0 0, Addstr upper, Addstr lower, Refresh]"
  using render_packs_row_pairs
    [of "\<lparr>buffer = \<lparr>first = True,
               grid_a = \<lparr>width = 2, height = 2, data = [True, False, False, True]\<rparr>,
               grid_b = \<lparr>width = 2, height = 2, data = [False, False, False, False]\<rparr>\<rparr>\<rparr>"]
  by (simp add: buffer_ok_def grid_ok_def INT_MAX_def front_def upto.simps alive_def in_bounds_def
        offset_def glyph_def)

lemma render_cols_not_EvenHeight:
  "render_cols g y x calls \<noteq> Inl (AssertionFailed EvenHeight)"
proof (induction g y x calls rule: render_cols.induct)
  case (1 g y x calls)
  show ?case
  proof (cases "x = width g")
    case True
    then show ?thesis by (simp add: render_cols.simps)
  next
    case False
    show ?thesis
    proof (cases "get_cell g x y")
      case (Inl e)
      then have "e \<noteq> AssertionFailed EvenHeight"
        by (auto simp: get_cell_def split: if_splits)
      with False Inl show ?thesis by (subst render_cols.simps) simp
    next
      case top_read: (Inr t)
      show ?thesis
      proof (cases "get_cell g x (y + 1)")
        case (Inl e)
        then have "e \<noteq> AssertionFailed EvenHeight"
          by (auto simp: get_cell_def split: if_splits)
        with False top_read Inl show ?thesis by (subst render_cols.simps) simp
      next
        case (Inr b)
        with False top_read "1" [of t b] show ?thesis
          by (subst render_cols.simps) simp
      qed
    qed
  qed
qed

lemma render_rows_not_EvenHeight:
  "render_rows g y calls \<noteq> Inl (AssertionFailed EvenHeight)"
proof (induction g y calls rule: render_rows.induct)
  case (1 g y calls)
  show ?case
  proof (cases "y = height g")
    case True
    then show ?thesis by (simp add: render_rows.simps)
  next
    case False
    show ?thesis
    proof (cases "render_cols g y 0 (calls @ [Move (cdiv y 2) 0])")
      case (Inl e)
      with render_cols_not_EvenHeight [of g y 0 "calls @ [Move (cdiv y 2) 0]"]
      have "e \<noteq> AssertionFailed EvenHeight" by simp
      with False Inl show ?thesis by (subst render_rows.simps) simp
    next
      case (Inr calls')
      with False "1" [of calls'] show ?thesis
        by (subst render_rows.simps) simp
    qed
  qed
qed

subsection \<open>Claim C9: an odd height stops render\<close>

text \<open>
  C9. On a game whose front grid has an odd height \<^const>\<open>render\<close> fails its assertion
  at once: the result is the failure and no call has been made to the terminal. On a
  front grid of even height that assertion never fails, whatever else the game holds; and
  when the two grids are well-formed, \<^const>\<open>render\<close> returns its calls.
\<close>

theorem render_asserts_even_height:
  "(odd (height (front (buffer gm))) \<longrightarrow> render gm = Inl (AssertionFailed EvenHeight)) \<and>
   (even (height (front (buffer gm))) \<longrightarrow> render gm \<noteq> Inl (AssertionFailed EvenHeight)) \<and>
   (even (height (front (buffer gm))) \<and> buffer_ok (buffer gm) \<longrightarrow> (\<exists>calls. render gm = Inr calls))"
proof (intro conjI impI)
  assume "odd (height (front (buffer gm)))"
  then show "render gm = Inl (AssertionFailed EvenHeight)"
    by (simp add: render_def crem_2_iff)
next
  assume "even (height (front (buffer gm)))"
  then show "render gm \<noteq> Inl (AssertionFailed EvenHeight)"
    using render_rows_not_EvenHeight [of "front (buffer gm)" 0 "[]"]
    by (auto simp: render_def crem_2_iff split: sum.splits)
next
  assume a: "even (height (front (buffer gm))) \<and> buffer_ok (buffer gm)"
  then have ok: "grid_ok (front (buffer gm))" by (simp add: buffer_ok_front_back)
  then have h: "0 \<le> height (front (buffer gm)) div 2" by (simp add: grid_ok_def)
  have "\<exists>calls. render_rows (front (buffer gm)) (2 * 0) [] = Inr calls"
    using a h render_rows_calls [OF ok, of 0 "[]"] by simp
  then show "\<exists>calls. render gm = Inr calls"
    using a by (auto simp: render_def crem_2_iff)
qed

theorem render_asserts_even_height_witness:
  "odd (height (front (buffer \<lparr>buffer = \<lparr>first = True,
               grid_a = \<lparr>width = 1, height = 3, data = [True, False, True]\<rparr>,
               grid_b = \<lparr>width = 1, height = 3, data = [False, False, False]\<rparr>\<rparr>\<rparr>))) \<and>
   render \<lparr>buffer = \<lparr>first = True,
               grid_a = \<lparr>width = 1, height = 3, data = [True, False, True]\<rparr>,
               grid_b = \<lparr>width = 1, height = 3, data = [False, False, False]\<rparr>\<rparr>\<rparr>
     = Inl (AssertionFailed EvenHeight) \<and>
   even (height (front (buffer \<lparr>buffer = \<lparr>first = True,
               grid_a = \<lparr>width = 1, height = 2, data = [True, False]\<rparr>,
               grid_b = \<lparr>width = 1, height = 2, data = [False, False]\<rparr>\<rparr>\<rparr>))) \<and>
   buffer_ok \<lparr>first = True,
               grid_a = \<lparr>width = 1, height = 2, data = [True, False]\<rparr>,
               grid_b = \<lparr>width = 1, height = 2, data = [False, False]\<rparr>\<rparr> \<and>
   render \<lparr>buffer = \<lparr>first = True,
               grid_a = \<lparr>width = 1, height = 2, data = [True, False]\<rparr>,
               grid_b = \<lparr>width = 1, height = 2, data = [False, False]\<rparr>\<rparr>\<rparr>
     \<noteq> Inl (AssertionFailed EvenHeight) \<and>
   (\<exists>calls. render \<lparr>buffer = \<lparr>first = True,
               grid_a = \<lparr>width = 1, height = 2, data = [True, False]\<rparr>,
               grid_b = \<lparr>width = 1, height = 2, data = [False, False]\<rparr>\<rparr>\<rparr> = Inr calls)"
  using render_asserts_even_height
    [of "\<lparr>buffer = \<lparr>first = True,
               grid_a = \<lparr>width = 1, height = 3, data = [True, False, True]\<rparr>,
               grid_b = \<lparr>width = 1, height = 3, data = [False, False, False]\<rparr>\<rparr>\<rparr>"]
    render_asserts_even_height
    [of "\<lparr>buffer = \<lparr>first = True,
               grid_a = \<lparr>width = 1, height = 2, data = [True, False]\<rparr>,
               grid_b = \<lparr>width = 1, height = 2, data = [False, False]\<rparr>\<rparr>\<rparr>"]
  by (simp add: front_def buffer_ok_def grid_ok_def INT_MAX_def)

section \<open>Properties of the constructor\<close>

lemma seeded_step:
  assumes ok: "grid_ok g" and i: "0 \<le> i" "i < width g * height g"
  shows "set_cell (seeded draw engine g (nat i)) (crem i (width g)) (cdiv i (width g))
           (drawn_at draw 0 frequency engine (nat i) = 0)
         = Inr (seeded draw engine g (Suc (nat i)))"
proof -
  define k where "k = nat i"
  define D where "D = data g"
  define f where "f = (\<lambda>j. drawn_at draw 0 frequency engine j = 0)"
  from ok have nn: "0 \<le> width g" "0 \<le> height g" by (simp_all add: grid_ok_def)
  with i have w: "0 < width g" by (cases "width g = 0") simp_all
  have x: "crem i (width g) = i mod width g" and y: "cdiv i (width g) = i div width g"
    using i w by (simp_all add: crem_nonneg cdiv_nonneg)
  have x_b: "0 \<le> i mod width g" "i mod width g < width g" using w by simp_all
  have y0: "0 \<le> i div width g" using w i by (simp add: pos_imp_zdiv_nonneg_iff)
  have y1: "i div width g < height g"
  proof (rule ccontr)
    assume "\<not> i div width g < height g"
    then have "height g * width g \<le> (i div width g) * width g"
      using w by (intro mult_right_mono) simp_all
    also have "\<dots> \<le> i" using x_b(1) by (simp add: mult.commute minus_mod_eq_mult_div [symmetric])
    finally show False using i by (simp add: mult.commute)
  qed
  have lD: "length D = nat (width g * height g)" using ok by (simp add: D_def grid_ok_def)
  have k: "k < length D" using i lD by (simp add: k_def)
  have inb: "in_bounds (seeded draw engine g k) (i mod width g) (i div width g)"
    using x_b y0 y1 by (simp add: in_bounds_def seeded_def)
  have off: "offset (seeded draw engine g k) (i mod width g) (i div width g) = i"
    by (simp add: offset_def seeded_def)
  have len: "length (data (seeded draw engine g k)) = length D"
    using k by (simp add: seeded_def D_def)
  have d: "drop k D = D ! k # drop (Suc k) D"
    using k by (simp add: Cons_nth_drop_Suc)
  have "(map f [0..<k] @ drop k D)[k := f k] = map f [0..<k] @ (drop k D)[0 := f k]"
    by (simp add: list_update_append)
  also have "\<dots> = map f [0..<k] @ f k # drop (Suc k) D"
    by (subst d) simp
  also have "\<dots> = map f [0..<Suc k] @ drop (Suc k) D"
    by simp
  finally have upd: "(map f [0..<k] @ drop k D)[k := f k] = map f [0..<Suc k] @ drop (Suc k) D" .
  have "set_cell (seeded draw engine g k) (i mod width g) (i div width g) (f k)
        = Inr ((seeded draw engine g k)\<lparr>data := (data (seeded draw engine g k))[k := f k]\<rparr>)"
    using inb i k len by (simp add: set_cell_def off k_def [symmetric])
  also have "(seeded draw engine g k)\<lparr>data := (data (seeded draw engine g k))[k := f k]\<rparr>
             = seeded draw engine g (Suc k)"
    using upd by (simp add: seeded_def D_def f_def)
  finally show ?thesis by (simp add: x y k_def f_def)
qed

lemma seed_loop_seeded:
  assumes ok: "grid_ok g"
  shows "0 \<le> i \<Longrightarrow> i \<le> width g * height g \<Longrightarrow>
         seed_loop draw (width g) (height g) (seeded draw engine g (nat i))
           (engine_after draw 0 frequency engine (nat i)) i
         = Inr (seeded draw engine g (nat (width g * height g)))"
proof (induction "nat (width g * height g - i)" arbitrary: i)
  case 0
  then have "i = width g * height g" by simp
  then show ?case by (simp add: seed_loop.simps)
next
  case (Suc n)
  then have i: "0 \<le> i" "i < width g * height g" by simp_all
  from ok have nn: "0 \<le> width g" "0 \<le> height g" by (simp_all add: grid_ok_def)
  with i have w: "width g \<noteq> 0" by (cases "width g = 0") simp_all
  have ni: "\<not> INT_MAX \<le> i" using i ok by (simp add: grid_ok_def)
  have nxt: "Suc (nat i) = nat (i + 1)" using i by simp
  have IH: "seed_loop draw (width g) (height g) (seeded draw engine g (nat (i + 1)))
              (engine_after draw 0 frequency engine (nat (i + 1))) (i + 1)
            = Inr (seeded draw engine g (nat (width g * height g)))"
    using Suc.hyps(2) i by (intro Suc.hyps(1)) simp_all
  obtain v e' where dr: "draw 0 frequency (engine_after draw 0 frequency engine (nat i)) = (v, e')"
    by (cases "draw 0 frequency (engine_after draw 0 frequency engine (nat i))")
  then have v: "v = drawn_at draw 0 frequency engine (nat i)"
    and e': "e' = engine_after draw 0 frequency engine (nat (i + 1))"
    by (simp_all add: drawn_at_def nxt [symmetric])
  show ?case
    using i w ni
    by (subst seed_loop.simps) (simp add: dr v e' seeded_step [OF ok i] nxt IH)
qed


lemma make_grid_ok:
  assumes "0 \<le> w" "w \<le> INT_MAX" "0 \<le> h" "h \<le> INT_MAX" "w * h \<le> INT_MAX"
  shows "make_grid w h mem = Inr \<lparr>width = w, height = h, data = map mem [0..<nat (w * h)]\<rparr>"
    and "grid_ok \<lparr>width = w, height = h, data = map mem [0..<nat (w * h)]\<rparr>"
proof -
  have "0 \<le> w * h" using assms(1,3) by simp
  then show "make_grid w h mem = Inr \<lparr>width = w, height = h, data = map mem [0..<nat (w * h)]\<rparr>"
    using assms(5) by (simp add: make_grid_def INT_MAX_def)
  show "grid_ok \<lparr>width = w, height = h, data = map mem [0..<nat (w * h)]\<rparr>"
    using assms by (simp add: grid_ok_def)
qed

subsection \<open>Claim C8: the constructor seeds the back grid and swaps\<close>

text \<open>
  C8. The constructor draws once for every cell of the back grid, in the order of the
  array, from the distribution it has built over \<open>0\<close> to \<^const>\<open>frequency\<close>, which is 3,
  and the cell is alive exactly when its draw is 0. It then swaps, so that the seeded grid
  is the front grid of the game it returns. Of the 4 numbers from 0 to 3 that a draw can
  give, one makes the cell alive. The distribution is the library's
  \<^verbatim>\<open>uniform_int_distribution\<close>: the parameter \<open>draw\<close> stands for its call, and what the
  library promises of it (uniform, independent draws, hence about one cell in four alive)
  is not part of the program.
\<close>

theorem constructor_seeds_back_then_swaps:
  assumes "0 \<le> w" and "w \<le> INT_MAX" and "0 \<le> h" and "h \<le> INT_MAX" and "w * h \<le> INT_MAX"
  shows "frequency = 3 \<and>
         card {0..frequency} = 4 \<and> card {d \<in> {0..frequency}. d = 0} = 1 \<and>
         (\<exists>buf g gm.
            make_double_buffered_grid w h mem_a mem_b = Inr buf \<and>
            seed_loop draw w h (back_grid buf) engine 0 = Inr g \<and>
            g = \<lparr>width = w, height = h,
                 data = map (\<lambda>i. drawn_at draw 0 3 engine i = 0) [0..<nat (w * h)]\<rparr> \<and>
            make_game_of_life w h mem_a mem_b draw engine = Inr gm \<and>
            gm = \<lparr>buffer = swap (put_back buf g)\<rparr> \<and>
            front (buffer gm) = g \<and>
            back_grid (buffer gm) = front buf \<and>
            buffer_ok (buffer gm) \<and>
            (\<forall>x y. in_bounds g x y \<longrightarrow>
               get_cell (front (buffer gm)) x y
               = Inr (drawn_at draw 0 3 engine (nat (offset g x y)) = 0)))"
proof -
  let ?ga = "\<lparr>width = w, height = h, data = map mem_a [0..<nat (w * h)]\<rparr>"
  let ?gb = "\<lparr>width = w, height = h, data = map mem_b [0..<nat (w * h)]\<rparr>"
  let ?buf = "\<lparr>first = True, grid_a = ?ga, grid_b = ?gb\<rparr>"
  let ?g = "\<lparr>width = w, height = h,
             data = map (\<lambda>i. drawn_at draw 0 3 engine i = 0) [0..<nat (w * h)]\<rparr>"
  let ?gm = "\<lparr>buffer = swap (put_back ?buf ?g)\<rparr>"
  have oka: "grid_ok ?ga" and okb: "grid_ok ?gb" and okg: "grid_ok ?g"
    using assms by (simp_all add: grid_ok_def)
  have mk: "make_double_buffered_grid w h mem_a mem_b = Inr ?buf"
    using make_grid_ok(1) [OF assms] by (simp add: make_double_buffered_grid_def)
  have bk: "back_grid ?buf = ?gb" by (simp add: back_grid_def)
  have start: "seeded draw engine ?gb (nat 0) = ?gb"
    by (simp add: seeded_def)
  have fin: "seeded draw engine ?gb (nat (w * h)) = ?g"
    by (simp add: seeded_def frequency_def)
  have "0 \<le> w * h" using assms(1,3) by simp
  then have "seed_loop draw (width ?gb) (height ?gb) (seeded draw engine ?gb (nat 0))
               (engine_after draw 0 frequency engine (nat 0)) 0
             = Inr (seeded draw engine ?gb (nat (width ?gb * height ?gb)))"
    by (intro seed_loop_seeded [OF okb]) simp_all
  then have sd: "seed_loop draw w h ?gb engine 0 = Inr ?g"
    unfolding start by (simp add: fin)
  have gm: "make_game_of_life w h mem_a mem_b draw engine = Inr ?gm"
    by (simp add: make_game_of_life_def mk bk sd)
  have fr: "front (buffer ?gm) = ?g"
    by (simp add: front_def swap_def put_back_def)
  have bg: "back_grid (buffer ?gm) = front ?buf"
    by (simp add: front_def back_grid_def swap_def put_back_def)
  have bok: "buffer_ok (buffer ?gm)"
    using oka okg by (simp add: buffer_ok_def swap_def put_back_def)
  have cells: "\<forall>x y. in_bounds ?g x y \<longrightarrow>
      get_cell (front (buffer ?gm)) x y = Inr (drawn_at draw 0 3 engine (nat (offset ?g x y)) = 0)"
  proof (intro allI impI)
    fix x y
    assume inb: "in_bounds ?g x y"
    from offset_in_range [OF okg inb]
    have "0 \<le> offset ?g x y" "nat (offset ?g x y) < nat (w * h)" by simp_all
    then show "get_cell (front (buffer ?gm)) x y
               = Inr (drawn_at draw 0 3 engine (nat (offset ?g x y)) = 0)"
      unfolding fr using inb by (simp add: get_cell_def)
  qed
  show ?thesis
  proof (intro conjI exI)
    show "frequency = 3" by (simp add: frequency_def)
    show "card {0..frequency} = 4" by (simp add: frequency_def)
    have "{d \<in> {0..frequency}. d = 0} = {0}" by (auto simp: frequency_def)
    then show "card {d \<in> {0..frequency}. d = 0} = 1" by simp
    show "make_double_buffered_grid w h mem_a mem_b = Inr ?buf" by (rule mk)
    show "seed_loop draw w h (back_grid ?buf) engine 0 = Inr ?g" unfolding bk by (rule sd)
    show "?g = ?g" by (rule refl)
    show "make_game_of_life w h mem_a mem_b draw engine = Inr ?gm" by (rule gm)
    show "?gm = \<lparr>buffer = swap (put_back ?buf ?g)\<rparr>" by (rule refl)
    show "front (buffer ?gm) = ?g" by (rule fr)
    show "back_grid (buffer ?gm) = front ?buf" by (rule bg)
    show "buffer_ok (buffer ?gm)" by (rule bok)
    show "\<forall>x y. in_bounds ?g x y \<longrightarrow>
      get_cell (front (buffer ?gm)) x y = Inr (drawn_at draw 0 3 engine (nat (offset ?g x y)) = 0)"
      by (rule cells)
  qed
qed


theorem constructor_seeds_back_then_swaps_witness:
  "(\<exists>gm. make_game_of_life 2 1 (\<lambda>i. True) (\<lambda>i. True)
            (\<lambda>lo hi e. (e mod (hi + 1 - lo) + lo, e + 5)) (8 :: int) = Inr gm \<and>
         front (buffer gm) = \<lparr>width = 2, height = 1, data = [True, False]\<rparr> \<and>
         back_grid (buffer gm) = \<lparr>width = 2, height = 1, data = [True, True]\<rparr>)"
proof -
  have l: "[0..<nat (2 * 1)] = [0, Suc 0]" and l2: "[0..<2] = [0, Suc 0]"
    by (simp_all add: upt_rec)
  have d0: "drawn_at (\<lambda>lo hi e. (e mod (hi + 1 - lo) + lo, e + 5)) 0 3 (8 :: int) 0 = 0"
    by (simp add: drawn_at_def)
  have d1: "drawn_at (\<lambda>lo hi e. (e mod (hi + 1 - lo) + lo, e + 5)) 0 3 (8 :: int) (Suc 0) = 1"
    by (simp add: drawn_at_def)
  have mk: "make_double_buffered_grid 2 1 (\<lambda>i. True) (\<lambda>i. True)
            = Inr \<lparr>first = True, grid_a = \<lparr>width = 2, height = 1, data = [True, True]\<rparr>,
                    grid_b = \<lparr>width = 2, height = 1, data = [True, True]\<rparr>\<rparr>"
    by (simp add: make_double_buffered_grid_def make_grid_def INT_MAX_def l2)
  from constructor_seeds_back_then_swaps
    [of 2 1 "\<lambda>i. True" "\<lambda>i. True" "\<lambda>lo hi e. (e mod (hi + 1 - lo) + lo, e + 5)" "8 :: int"]
  obtain buf g gm where
    "make_double_buffered_grid 2 1 (\<lambda>i. True) (\<lambda>i. True) = Inr buf"
    "g = \<lparr>width = 2, height = 1,
          data = map (\<lambda>i. drawn_at (\<lambda>lo hi e. (e mod (hi + 1 - lo) + lo, e + 5)) 0 3 (8 :: int) i = 0)
                   [0..<nat (2 * 1)]\<rparr>"
    "make_game_of_life 2 1 (\<lambda>i. True) (\<lambda>i. True)
            (\<lambda>lo hi e. (e mod (hi + 1 - lo) + lo, e + 5)) (8 :: int) = Inr gm"
    "front (buffer gm) = g" "back_grid (buffer gm) = front buf"
    unfolding INT_MAX_def by fastforce
  then show ?thesis
    unfolding l by (auto simp: mk d0 d1 front_def)
qed

end
